theory Spec2Isabelle
  imports Main "HOL-Library.Word"
begin

unbundle bit_operations_syntax

section \<open>Data model\<close>

text \<open>
  Buffers are lists of bytes. A C++ \<^verbatim>\<open>const uint8_t* data\<close> is modelled by the list of the
  bytes that may be read through the pointer; \<^verbatim>\<open>data + pos\<close> is \<open>drop pos data\<close>.
  \<^verbatim>\<open>int32_t\<close>/\<^verbatim>\<open>uint32_t\<close> are \<open>32 word\<close> and \<^verbatim>\<open>int64_t\<close>/\<^verbatim>\<open>uint64_t\<close> are \<open>64 word\<close>
  (the signed reading is \<open>sint\<close>); \<^verbatim>\<open>size_t\<close> positions are natural numbers, with the
  one operation that can wrap (\<^verbatim>\<open>size - pos\<close>) written out modulo \<open>2^64\<close>.
\<close>

type_synonym byte = "8 word"

text \<open>
  The decoders throw \<^verbatim>\<open>std::runtime_error\<close>; the three messages of
  \<^verbatim>\<open>encoding.cpp\<close> are the first three constructors (\<^verbatim>\<open>"Truncated varint: ..."\<close>,
  \<^verbatim>\<open>"Varint overflow: ..."\<close>, \<^verbatim>\<open>"Invalid dictionary index"\<close>). \<open>OutOfBounds\<close> is not an
  exception of the program: it marks a read outside the buffer (undefined behaviour in C++),
  so that such a read is a visible outcome of the model. \<open>AllocFailed\<close> is the exception of
  a \<^verbatim>\<open>std::vector\<close> that cannot get its storage: \<^verbatim>\<open>std::length_error\<close> beyond
  \<^verbatim>\<open>max_size()\<close>, \<^verbatim>\<open>std::bad_alloc\<close> when the allocator has no more memory.
\<close>

datatype decode_error = Truncated | Overflow | InvalidDictIndex | OutOfBounds | AllocFailed

definition size_t_sub :: "nat \<Rightarrow> nat \<Rightarrow> nat" where
  "size_t_sub a b = (if b \<le> a then a - b else a + 2 ^ 64 - b)"

text \<open>
  \<^verbatim>\<open>std::memcpy\<close> of a 4- or 8-byte integer and the \<^verbatim>\<open>reinterpret_cast\<close> of its bytes, on a
  little-endian host (\<^verbatim>\<open>format.h\<close>: all multi-byte integers are little-endian).
\<close>

primrec le_bytes :: "nat \<Rightarrow> 'a::len word \<Rightarrow> byte list" where
  "le_bytes 0 w = []"
| "le_bytes (Suc n) w = ucast w # le_bytes n (drop_bit 8 w)"

primrec le_word :: "byte list \<Rightarrow> 'a::len word" where
  "le_word [] = 0"
| "le_word (b # bs) = ucast b OR push_bit 8 (le_word bs)"

definition read_u32 :: "byte list \<Rightarrow> nat \<Rightarrow> decode_error + 32 word" where
  "read_u32 data pos =
     (if pos + 4 \<le> length data then Inr (le_word (take 4 (drop pos data))) else Inl OutOfBounds)"

definition read_u64 :: "byte list \<Rightarrow> nat \<Rightarrow> decode_error + 64 word" where
  "read_u64 data pos =
     (if pos + 8 \<le> length data then Inr (le_word (take 8 (drop pos data))) else Inl OutOfBounds)"

text \<open>A \<^verbatim>\<open>std::string\<close> is a \<open>string\<close>; its \<^verbatim>\<open>char\<close>s are bytes.\<close>

definition byte_of_char :: "char \<Rightarrow> byte" where
  "byte_of_char c = of_char c"

definition char_of_byte :: "byte \<Rightarrow> char" where
  "char_of_byte b = char_of (unat b)"

section \<open>VarintCodec\<close>

text \<open>\<^verbatim>\<open>VarintCodec::encodeUInt32\<close>: the bytes written to \<^verbatim>\<open>output\<close>; the returned length is
  the length of the list.\<close>

function Varint_encodeUInt32 :: "32 word \<Rightarrow> byte list" where
  "Varint_encodeUInt32 v =
     (if 0x80 \<le> v
      then ucast ((v AND 0x7F) OR 0x80) # Varint_encodeUInt32 (drop_bit 7 v)
      else [ucast v])"
  by pat_completeness auto
termination
proof (relation "measure unat")
  show "wf (measure (unat :: 32 word \<Rightarrow> nat))" by simp
next
  fix v :: "32 word"
  assume a: "0x80 \<le> v"
  then have "v \<noteq> 0" by auto
  then have "0 < unat v" by (simp add: unat_gt_0)
  then have "unat (drop_bit 7 v) < unat v" by (simp add: drop_bit_eq_div unat_div)
  then show "(drop_bit 7 v, v) \<in> measure unat" by simp
qed

definition Varint_encodeInt32 :: "32 word \<Rightarrow> byte list" where
  "Varint_encodeInt32 v = Varint_encodeUInt32 (push_bit 1 v XOR signed_drop_bit 31 v)"

text \<open>The loop of \<^verbatim>\<open>VarintCodec::encodeInt64\<close> over the zigzag value.\<close>

function encodeInt64_loop :: "64 word \<Rightarrow> byte list" where
  "encodeInt64_loop encoded =
     (if 0x80 \<le> encoded
      then ucast ((encoded AND 0x7F) OR 0x80) # encodeInt64_loop (drop_bit 7 encoded)
      else [ucast encoded])"
  by pat_completeness auto
termination
proof (relation "measure unat")
  show "wf (measure (unat :: 64 word \<Rightarrow> nat))" by simp
next
  fix v :: "64 word"
  assume a: "0x80 \<le> v"
  then have "v \<noteq> 0" by auto
  then have "0 < unat v" by (simp add: unat_gt_0)
  then have "unat (drop_bit 7 v) < unat v" by (simp add: drop_bit_eq_div unat_div)
  then show "(drop_bit 7 v, v) \<in> measure unat" by simp
qed

definition Varint_encodeInt64 :: "64 word \<Rightarrow> byte list" where
  "Varint_encodeInt64 v = encodeInt64_loop (push_bit 1 v XOR signed_drop_bit 63 v)"

text \<open>The zigzag inverse \<^verbatim>\<open>(encoded >> 1) ^ -(encoded & 1)\<close> of the signed decoders.\<close>

definition zigzag_decode :: "'a::len word \<Rightarrow> 'a word" where
  "zigzag_decode encoded = drop_bit 1 encoded XOR - (encoded AND 1)"

text \<open>
  \<^verbatim>\<open>VarintCodec::decodeUInt32Safe\<close>: the loop state is \<open>(result, shift, pos)\<close>; a successful
  decode returns the value and \<^verbatim>\<open>*bytes_read\<close>.
\<close>

function decodeUInt32Safe_loop ::
  "byte list \<Rightarrow> nat \<Rightarrow> 32 word \<Rightarrow> nat \<Rightarrow> nat \<Rightarrow> decode_error + (32 word \<times> nat)" where
  "decodeUInt32Safe_loop data buffer_size result shift pos =
     (if pos < buffer_size \<and> shift < 32 then
        (if pos < length data then
           (let byte = data ! pos;
                pos' = pos + 1;
                result' = result OR push_bit shift (ucast (byte AND 0x7F))
            in if byte AND 0x80 = 0 then Inr (result', pos')
               else if 5 \<le> pos' then Inl Overflow
               else decodeUInt32Safe_loop data buffer_size result' (shift + 7) pos')
         else Inl OutOfBounds)
      else Inl Truncated)"
  by pat_completeness auto
termination
  by (relation "measure (\<lambda>(data, buffer_size, result, shift, pos). 5 - pos)") auto

definition Varint_decodeUInt32Safe :: "byte list \<Rightarrow> nat \<Rightarrow> decode_error + (32 word \<times> nat)" where
  "Varint_decodeUInt32Safe data buffer_size = decodeUInt32Safe_loop data buffer_size 0 0 0"

definition Varint_decodeInt32Safe :: "byte list \<Rightarrow> nat \<Rightarrow> decode_error + (32 word \<times> nat)" where
  "Varint_decodeInt32Safe data buffer_size =
     (case Varint_decodeUInt32Safe data buffer_size of
        Inl e \<Rightarrow> Inl e
      | Inr (encoded, bytes_read) \<Rightarrow> Inr (zigzag_decode encoded, bytes_read))"

function decodeInt64Safe_loop ::
  "byte list \<Rightarrow> nat \<Rightarrow> 64 word \<Rightarrow> nat \<Rightarrow> nat \<Rightarrow> decode_error + (64 word \<times> nat)" where
  "decodeInt64Safe_loop data buffer_size result shift pos =
     (if pos < buffer_size \<and> shift < 64 then
        (if pos < length data then
           (let byte = data ! pos;
                pos' = pos + 1;
                result' = result OR push_bit shift (ucast (byte AND 0x7F))
            in if byte AND 0x80 = 0
               then Inr (zigzag_decode result', pos')
               else if 10 \<le> pos' then Inl Overflow
               else decodeInt64Safe_loop data buffer_size result' (shift + 7) pos')
         else Inl OutOfBounds)
      else Inl Truncated)"
  by pat_completeness auto
termination
  by (relation "measure (\<lambda>(data, buffer_size, result, shift, pos). 10 - pos)") auto

definition Varint_decodeInt64Safe :: "byte list \<Rightarrow> nat \<Rightarrow> decode_error + (64 word \<times> nat)" where
  "Varint_decodeInt64Safe data buffer_size = decodeInt64Safe_loop data buffer_size 0 0 0"

text \<open>
  The unsigned value a varint byte sequence denotes: 7 payload bits per byte, least
  significant group first (bits beyond the word's width are dropped). It is used to state what
  a successful decode returns.
\<close>

primrec varint_payload :: "byte list \<Rightarrow> 'a::len word" where
  "varint_payload [] = 0"
| "varint_payload (b # bs) = ucast (b AND 0x7F) OR push_bit 7 (varint_payload bs)"

section \<open>RLEEncoder\<close>

text \<open>
  The two loops of \<^verbatim>\<open>RLEEncoder::encodeInt32\<close>/\<^verbatim>\<open>encodeInt64\<close> that collect the runs.
  \<^verbatim>\<open>run_length\<close> is a \<^verbatim>\<open>uint32_t\<close> and wraps; a run of \<open>2^32\<close> or more equal values
  makes the inner loop run forever, which is the value \<open>None\<close>.
\<close>

partial_function (option) rle_run_length :: "'a list \<Rightarrow> nat \<Rightarrow> 32 word \<Rightarrow> 32 word option" where
  "rle_run_length values i run_length =
     (if i + unat run_length < length values \<and> values ! (i + unat run_length) = values ! i
      then rle_run_length values i (run_length + 1)
      else Some run_length)"

partial_function (option) rle_runs ::
  "'a list \<Rightarrow> nat \<Rightarrow> (32 word \<times> 'a) list \<Rightarrow> (32 word \<times> 'a) list option" where
  "rle_runs values i runs =
     (if i < length values
      then Option.bind (rle_run_length values i 1)
             (\<lambda>run_length. rle_runs values (i + unat run_length) (runs @ [(run_length, values ! i)]))
      else Some runs)"

declare rle_run_length.simps [code] rle_runs.simps [code]

text \<open>The bytes emitted for the collected runs: the run count, then each run.\<close>

definition rle_emit32 :: "(32 word \<times> 32 word) list \<Rightarrow> byte list" where
  "rle_emit32 runs =
     Varint_encodeUInt32 (of_nat (length runs)) @
     concat (map (\<lambda>(run_len, v). Varint_encodeUInt32 run_len @ Varint_encodeInt32 v) runs)"

definition rle_emit64 :: "(32 word \<times> 64 word) list \<Rightarrow> byte list" where
  "rle_emit64 runs =
     Varint_encodeUInt32 (of_nat (length runs)) @
     concat (map (\<lambda>(run_len, v). Varint_encodeUInt32 run_len @ Varint_encodeInt64 v) runs)"

definition RLE_encodeInt32 :: "32 word list \<Rightarrow> byte list option" where
  "RLE_encodeInt32 values =
     (if values = [] then Some []
      else Option.bind (rle_runs values 0 []) (\<lambda>runs. Some (rle_emit32 runs)))"

definition RLE_encodeInt64 :: "64 word list \<Rightarrow> byte list option" where
  "RLE_encodeInt64 values =
     (if values = [] then Some []
      else Option.bind (rle_runs values 0 []) (\<lambda>runs. Some (rle_emit64 runs)))"

text \<open>
  The storage of a result vector. How many elements a \<^verbatim>\<open>std::vector\<close> can hold is not
  fixed by the program: it is \<^verbatim>\<open>max_size()\<close> of the library, or less where the allocator
  runs out of memory first. The decoders take this number as a parameter \<open>cap\<close>:
  \<^verbatim>\<open>reserve(n)\<close> throws when \<open>n\<close> is above \<open>cap\<close>, and so does \<^verbatim>\<open>push_back\<close> on a vector
  that holds \<open>cap\<close> elements already. The storage is this one number: what \<^verbatim>\<open>reserve\<close> can
  get and what the vector can grow to are taken to be the same.

  \<open>push_back_run\<close> is the inner loop
  \<^verbatim>\<open>for (uint32_t j = 0; j < run_length; j++) result.push_back(value)\<close> of the RLE decoders;
  its second argument is the number of iterations still to run (\<^verbatim>\<open>run_length - j\<close>).
\<close>

fun push_back_run :: "nat \<Rightarrow> nat \<Rightarrow> 'a \<Rightarrow> 'a list \<Rightarrow> decode_error + 'a list" where
  "push_back_run cap 0 v result = Inr result"
| "push_back_run cap (Suc j) v result =
     (if length result < cap then push_back_run cap j v (result @ [v]) else Inl AllocFailed)"

text \<open>
  \<^verbatim>\<open>RLEEncoder::decodeInt32\<close>. \<^verbatim>\<open>num_values\<close> is only passed to \<^verbatim>\<open>reserve\<close>, before anything
  is read. The second argument of the loop is the number of runs still to read
  (\<^verbatim>\<open>num_runs - i\<close>).
\<close>

fun RLE_decodeInt32_runs ::
  "nat \<Rightarrow> nat \<Rightarrow> byte list \<Rightarrow> nat \<Rightarrow> nat \<Rightarrow> 32 word list \<Rightarrow> decode_error + 32 word list" where
  "RLE_decodeInt32_runs cap 0 data size' pos result = Inr result"
| "RLE_decodeInt32_runs cap (Suc k) data size' pos result =
     (case Varint_decodeUInt32Safe (drop pos data) (size_t_sub size' pos) of
        Inl e \<Rightarrow> Inl e
      | Inr (run_length, bytes_read) \<Rightarrow>
          (case Varint_decodeInt32Safe (drop (pos + bytes_read) data)
                  (size_t_sub size' (pos + bytes_read)) of
             Inl e \<Rightarrow> Inl e
           | Inr (v, bytes_read') \<Rightarrow>
               (case push_back_run cap (unat run_length) v result of
                  Inl e \<Rightarrow> Inl e
                | Inr result' \<Rightarrow>
                    RLE_decodeInt32_runs cap k data size' (pos + bytes_read + bytes_read')
                      result')))"

definition RLE_decodeInt32 ::
  "nat \<Rightarrow> byte list \<Rightarrow> nat \<Rightarrow> nat \<Rightarrow> decode_error + 32 word list" where
  "RLE_decodeInt32 cap data size' num_values =
     (if cap < num_values then Inl AllocFailed
      else
        (case Varint_decodeUInt32Safe (drop 0 data) (size_t_sub size' 0) of
           Inl e \<Rightarrow> Inl e
         | Inr (num_runs, bytes_read) \<Rightarrow>
             RLE_decodeInt32_runs cap (unat num_runs) data size' bytes_read []))"

fun RLE_decodeInt64_runs ::
  "nat \<Rightarrow> nat \<Rightarrow> byte list \<Rightarrow> nat \<Rightarrow> nat \<Rightarrow> 64 word list \<Rightarrow> decode_error + 64 word list" where
  "RLE_decodeInt64_runs cap 0 data size' pos result = Inr result"
| "RLE_decodeInt64_runs cap (Suc k) data size' pos result =
     (case Varint_decodeUInt32Safe (drop pos data) (size_t_sub size' pos) of
        Inl e \<Rightarrow> Inl e
      | Inr (run_length, bytes_read) \<Rightarrow>
          (case Varint_decodeInt64Safe (drop (pos + bytes_read) data)
                  (size_t_sub size' (pos + bytes_read)) of
             Inl e \<Rightarrow> Inl e
           | Inr (v, bytes_read') \<Rightarrow>
               (case push_back_run cap (unat run_length) v result of
                  Inl e \<Rightarrow> Inl e
                | Inr result' \<Rightarrow>
                    RLE_decodeInt64_runs cap k data size' (pos + bytes_read + bytes_read')
                      result')))"

definition RLE_decodeInt64 ::
  "nat \<Rightarrow> byte list \<Rightarrow> nat \<Rightarrow> nat \<Rightarrow> decode_error + 64 word list" where
  "RLE_decodeInt64 cap data size' num_values =
     (if cap < num_values then Inl AllocFailed
      else
        (case Varint_decodeUInt32Safe (drop 0 data) (size_t_sub size' 0) of
           Inl e \<Rightarrow> Inl e
         | Inr (num_runs, bytes_read) \<Rightarrow>
             RLE_decodeInt64_runs cap (unat num_runs) data size' bytes_read []))"

text \<open>
  Two auxiliary notions for stating what the decoders return. \<open>rle_expand\<close> is the list of
  values a list of runs stands for. \<open>rle_read_runs\<close> is the run loop of the decoders without
  the replication: the \<open>(run_length, value)\<close> pairs it decodes and the position after the last
  run; \<open>dec\<close> is the decoder of the values (\<open>decodeInt32Safe\<close> or \<open>decodeInt64Safe\<close>).
\<close>

definition rle_expand :: "(32 word \<times> 'a) list \<Rightarrow> 'a list" where
  "rle_expand runs = concat (map (\<lambda>(run_length, v). replicate (unat run_length) v) runs)"

fun rle_read_runs ::
  "(byte list \<Rightarrow> nat \<Rightarrow> decode_error + ('a \<times> nat)) \<Rightarrow> nat \<Rightarrow> byte list \<Rightarrow> nat \<Rightarrow> nat
   \<Rightarrow> decode_error + ((32 word \<times> 'a) list \<times> nat)" where
  "rle_read_runs dec 0 data size' pos = Inr ([], pos)"
| "rle_read_runs dec (Suc k) data size' pos =
     (case Varint_decodeUInt32Safe (drop pos data) (size_t_sub size' pos) of
        Inl e \<Rightarrow> Inl e
      | Inr (run_length, bytes_read) \<Rightarrow>
          (case dec (drop (pos + bytes_read) data) (size_t_sub size' (pos + bytes_read)) of
             Inl e \<Rightarrow> Inl e
           | Inr (v, bytes_read') \<Rightarrow>
               (case rle_read_runs dec k data size' (pos + bytes_read + bytes_read') of
                  Inl e \<Rightarrow> Inl e
                | Inr (runs, p) \<Rightarrow> Inr ((run_length, v) # runs, p))))"

definition RLE_read_runs32 ::
  "byte list \<Rightarrow> nat \<Rightarrow> decode_error + ((32 word \<times> 32 word) list \<times> nat)" where
  "RLE_read_runs32 data size' =
     (case Varint_decodeUInt32Safe data size' of
        Inl e \<Rightarrow> Inl e
      | Inr (num_runs, bytes_read) \<Rightarrow>
          rle_read_runs Varint_decodeInt32Safe (unat num_runs) data size' bytes_read)"

definition RLE_read_runs64 ::
  "byte list \<Rightarrow> nat \<Rightarrow> decode_error + ((32 word \<times> 64 word) list \<times> nat)" where
  "RLE_read_runs64 data size' =
     (case Varint_decodeUInt32Safe data size' of
        Inl e \<Rightarrow> Inl e
      | Inr (num_runs, bytes_read) \<Rightarrow>
          rle_read_runs Varint_decodeInt64Safe (unat num_runs) data size' bytes_read)"

text \<open>
  Two properties of a varint decoder, used to state the lemmas about the run loops once for
  both value widths: it returns the same on every buffer that agrees on the bytes it consumed,
  and within the buffer it fails only with \<open>Truncated\<close> or \<open>Overflow\<close>.
\<close>

definition reads_prefix :: "(byte list \<Rightarrow> nat \<Rightarrow> decode_error + ('a \<times> nat)) \<Rightarrow> bool" where
  "reads_prefix dec \<longleftrightarrow>
     (\<forall>d n v br. dec d n = Inr (v, br) \<and> n \<le> length d \<longrightarrow>
        br \<le> n \<and>
        (\<forall>d' n'. take br d' = take br d \<and> br \<le> n' \<and> n' \<le> length d' \<longrightarrow>
           dec d' n' = Inr (v, br)))"

definition varint_errors :: "(byte list \<Rightarrow> nat \<Rightarrow> decode_error + ('a \<times> nat)) \<Rightarrow> bool" where
  "varint_errors dec \<longleftrightarrow>
     (\<forall>d n e. dec d n = Inl e \<and> n \<le> length d \<longrightarrow> e = Truncated \<or> e = Overflow)"

section \<open>DeltaEncoder\<close>

text \<open>The loop of \<^verbatim>\<open>DeltaEncoder::encodeInt32\<close> from index 1 on, with the running \<^verbatim>\<open>prev\<close>.\<close>

fun delta_encode32_loop :: "32 word \<Rightarrow> 32 word list \<Rightarrow> byte list" where
  "delta_encode32_loop prev [] = []"
| "delta_encode32_loop prev (x # xs) = Varint_encodeInt32 (x - prev) @ delta_encode32_loop x xs"

definition Delta_encodeInt32 :: "32 word list \<Rightarrow> byte list" where
  "Delta_encodeInt32 values =
     (if values = [] then []
      else le_bytes 4 (hd values) @
           Varint_encodeUInt32 (of_nat (length values - 1)) @
           delta_encode32_loop (hd values) (tl values))"

fun delta_encode64_loop :: "64 word \<Rightarrow> 64 word list \<Rightarrow> byte list" where
  "delta_encode64_loop prev [] = []"
| "delta_encode64_loop prev (x # xs) = Varint_encodeInt64 (x - prev) @ delta_encode64_loop x xs"

definition Delta_encodeInt64 :: "64 word list \<Rightarrow> byte list" where
  "Delta_encodeInt64 values =
     (if values = [] then []
      else le_bytes 8 (hd values) @
           Varint_encodeUInt32 (of_nat (length values - 1)) @
           delta_encode64_loop (hd values) (tl values))"

text \<open>
  \<^verbatim>\<open>DeltaEncoder::decodeInt32\<close>; the loop counts the deltas still to read. The storage of
  the result vector is not a parameter of these two decoders: what is proved of them takes
  \<^verbatim>\<open>num_values\<close> to be the number of values that were encoded, or 1.
\<close>

fun delta_decode32_loop ::
  "nat \<Rightarrow> byte list \<Rightarrow> nat \<Rightarrow> nat \<Rightarrow> 32 word \<Rightarrow> 32 word list \<Rightarrow> decode_error + 32 word list" where
  "delta_decode32_loop 0 data size' pos current result = Inr result"
| "delta_decode32_loop (Suc k) data size' pos current result =
     (case Varint_decodeInt32Safe (drop pos data) (size_t_sub size' pos) of
        Inl e \<Rightarrow> Inl e
      | Inr (delta, bytes_read) \<Rightarrow>
          delta_decode32_loop k data size' (pos + bytes_read) (current + delta)
            (result @ [current + delta]))"

definition Delta_decodeInt32 :: "byte list \<Rightarrow> nat \<Rightarrow> nat \<Rightarrow> decode_error + 32 word list" where
  "Delta_decodeInt32 data size' num_values =
     (if num_values = 0 then Inr []
      else case read_u32 data 0 of
        Inl e \<Rightarrow> Inl e
      | Inr base \<Rightarrow>
          (case Varint_decodeUInt32Safe (drop 4 data) (size_t_sub size' 4) of
             Inl e \<Rightarrow> Inl e
           | Inr (num_deltas, bytes_read) \<Rightarrow>
               delta_decode32_loop (unat num_deltas) data size' (4 + bytes_read) base [base]))"

fun delta_decode64_loop ::
  "nat \<Rightarrow> byte list \<Rightarrow> nat \<Rightarrow> nat \<Rightarrow> 64 word \<Rightarrow> 64 word list \<Rightarrow> decode_error + 64 word list" where
  "delta_decode64_loop 0 data size' pos current result = Inr result"
| "delta_decode64_loop (Suc k) data size' pos current result =
     (case Varint_decodeInt64Safe (drop pos data) (size_t_sub size' pos) of
        Inl e \<Rightarrow> Inl e
      | Inr (delta, bytes_read) \<Rightarrow>
          delta_decode64_loop k data size' (pos + bytes_read) (current + delta)
            (result @ [current + delta]))"

definition Delta_decodeInt64 :: "byte list \<Rightarrow> nat \<Rightarrow> nat \<Rightarrow> decode_error + 64 word list" where
  "Delta_decodeInt64 data size' num_values =
     (if num_values = 0 then Inr []
      else case read_u64 data 0 of
        Inl e \<Rightarrow> Inl e
      | Inr base \<Rightarrow>
          (case Varint_decodeUInt32Safe (drop 8 data) (size_t_sub size' 8) of
             Inl e \<Rightarrow> Inl e
           | Inr (num_deltas, bytes_read) \<Rightarrow>
               delta_decode64_loop (unat num_deltas) data size' (8 + bytes_read) base [base]))"

section \<open>DictionaryEncoder\<close>

text \<open>
  The build loop of \<^verbatim>\<open>DictionaryEncoder::encode\<close>. The state is the map \<^verbatim>\<open>dict_\<close>, the
  vector \<^verbatim>\<open>dict_values_\<close> and the local \<^verbatim>\<open>indices\<close>; \<^verbatim>\<open>encode\<close> clears the first two
  on entry.
\<close>

fun dict_build ::
  "string list \<Rightarrow> (string \<rightharpoonup> 32 word) \<Rightarrow> string list \<Rightarrow> 32 word list
   \<Rightarrow> (string \<rightharpoonup> 32 word) \<times> string list \<times> 32 word list" where
  "dict_build [] dict dict_values indices = (dict, dict_values, indices)"
| "dict_build (v # vs) dict dict_values indices =
     (case dict v of
        None \<Rightarrow>
          (let idx = of_nat (length dict_values)
           in dict_build vs (dict(v \<mapsto> idx)) (dict_values @ [v]) (indices @ [idx]))
      | Some idx \<Rightarrow> dict_build vs dict dict_values (indices @ [idx]))"

definition dict_emit_entry :: "string \<Rightarrow> byte list" where
  "dict_emit_entry str = le_bytes 4 (of_nat (length str) :: 32 word) @ map byte_of_char str"

definition Dictionary_encode :: "string list \<Rightarrow> byte list option" where
  "Dictionary_encode values =
     (case dict_build values Map.empty [] [] of
        (dict, dict_values, indices) \<Rightarrow>
          Option.bind (RLE_encodeInt32 indices)
            (\<lambda>encoded_indices.
               Some (le_bytes 4 (of_nat (length dict_values) :: 32 word) @
                     concat (map dict_emit_entry dict_values) @
                     encoded_indices)))"

text \<open>
  \<^verbatim>\<open>DictionaryEncoder::decode\<close>: the dictionary loop, then the indices, then the lookups.
  \<open>cap\<close> is the number of elements the vector of indices can hold, \<open>scap\<close> the number of
  strings the vectors \<^verbatim>\<open>dictionary\<close> and \<^verbatim>\<open>result\<close> can hold; \<^verbatim>\<open>dictionary\<close> is
  reserved for \<^verbatim>\<open>dict_size\<close> strings and does not grow beyond them. The characters of an
  entry are copied from the buffer, an entry is never longer than the buffer; the storage of
  the characters is not limited in the model.
\<close>

fun dict_read_entries ::
  "nat \<Rightarrow> byte list \<Rightarrow> nat \<Rightarrow> string list \<Rightarrow> decode_error + (string list \<times> nat)" where
  "dict_read_entries 0 data pos dictionary = Inr (dictionary, pos)"
| "dict_read_entries (Suc k) data pos dictionary =
     (case read_u32 data pos of
        Inl e \<Rightarrow> Inl e
      | Inr len \<Rightarrow>
          (if pos + 4 + unat len \<le> length data
           then dict_read_entries k data (pos + 4 + unat len)
                  (dictionary @ [map char_of_byte (take (unat len) (drop (pos + 4) data))])
           else Inl OutOfBounds))"

fun dict_lookup_all ::
  "nat \<Rightarrow> string list \<Rightarrow> 32 word list \<Rightarrow> string list \<Rightarrow> decode_error + string list" where
  "dict_lookup_all scap dictionary [] result = Inr result"
| "dict_lookup_all scap dictionary (idx # indices) result =
     (if sint idx < 0 \<or> sint (of_nat (length dictionary) :: 32 word) \<le> sint idx
      then Inl InvalidDictIndex
      else if length result < scap
      then dict_lookup_all scap dictionary indices (result @ [dictionary ! nat (sint idx)])
      else Inl AllocFailed)"

definition Dictionary_decode ::
  "nat \<Rightarrow> nat \<Rightarrow> byte list \<Rightarrow> nat \<Rightarrow> nat \<Rightarrow> decode_error + string list" where
  "Dictionary_decode cap scap data size' num_values =
     (case read_u32 data 0 of
        Inl e \<Rightarrow> Inl e
      | Inr dict_size \<Rightarrow>
          (if scap < unat dict_size then Inl AllocFailed
           else
             (case dict_read_entries (unat dict_size) data 4 [] of
                Inl e \<Rightarrow> Inl e
              | Inr (dictionary, pos) \<Rightarrow>
                  (case RLE_decodeInt32 cap (drop pos data) (size_t_sub size' pos) num_values of
                     Inl e \<Rightarrow> Inl e
                   | Inr indices \<Rightarrow>
                       (if scap < num_values then Inl AllocFailed
                        else dict_lookup_all scap dictionary indices [])))))"

section \<open>Predicate and page statistics\<close>

text \<open>\<^verbatim>\<open>PageStats\<close> (\<^verbatim>\<open>format.h\<close>), \<^verbatim>\<open>CompareOp\<close> and \<^verbatim>\<open>Predicate\<close> (\<^verbatim>\<open>execution.h\<close>).\<close>

record PageStats =
  min_int :: "64 word option"
  max_int :: "64 word option"
  null_count :: "32 word"
  distinct_count_estimate :: "32 word"

datatype CompareOp = EQ | NE | LT | LE | GT | GE

record Predicate =
  pred_column :: string
  pred_op :: CompareOp
  pred_value :: "64 word"

text \<open>
  Modelled from the spec: the bodies of \<^verbatim>\<open>Predicate::evaluate\<close> and
  \<^verbatim>\<open>Predicate::canSkipPage\<close> (\<^verbatim>\<open>execution.cpp\<close>) are not among the sources; only their
  declarations and a test are. \<open>evaluate\<close> is the per-row comparison of the column value
  with the predicate's value, as signed 64-bit integers.
\<close>

definition evaluate :: "Predicate \<Rightarrow> 64 word \<Rightarrow> bool" where
  "evaluate p col_value =
     (case pred_op p of
        EQ \<Rightarrow> sint col_value = sint (pred_value p)
      | NE \<Rightarrow> sint col_value \<noteq> sint (pred_value p)
      | LT \<Rightarrow> sint col_value < sint (pred_value p)
      | LE \<Rightarrow> sint col_value \<le> sint (pred_value p)
      | GT \<Rightarrow> sint col_value > sint (pred_value p)
      | GE \<Rightarrow> sint col_value \<ge> sint (pred_value p))"

text \<open>
  Modelled from the spec: the overload \<^verbatim>\<open>evaluate(int32_t)\<close> for 32-bit columns, the same
  comparison after the conversion of the column value to \<^verbatim>\<open>int64_t\<close>.
\<close>

definition evaluate32 :: "Predicate \<Rightarrow> 32 word \<Rightarrow> bool" where
  "evaluate32 p col_value = evaluate p (scast col_value)"

text \<open>
  Modelled from the spec: the table of section 4.8 (GT v: skip iff max \<open>\<le>\<close> v; GE v: max < v;
  LT v: min \<open>\<ge>\<close> v; LE v: min > v; EQ v: v < min or v > max; NE v: min = max = v), and no
  skip when min or max is absent.
\<close>

definition canSkipPage :: "Predicate \<Rightarrow> PageStats \<Rightarrow> bool" where
  "canSkipPage p stats =
     (case (min_int stats, max_int stats) of
        (Some mn, Some mx) \<Rightarrow>
          (case pred_op p of
             GT \<Rightarrow> sint mx \<le> sint (pred_value p)
           | GE \<Rightarrow> sint mx < sint (pred_value p)
           | LT \<Rightarrow> sint mn \<ge> sint (pred_value p)
           | LE \<Rightarrow> sint mn > sint (pred_value p)
           | EQ \<Rightarrow> sint (pred_value p) < sint mn \<or> sint (pred_value p) > sint mx
           | NE \<Rightarrow> sint mn = sint mx \<and> sint mx = sint (pred_value p))
      | _ \<Rightarrow> False)"


section \<open>Properties of the varint codec\<close>

declare Varint_encodeUInt32.simps [simp del] encodeInt64_loop.simps [simp del]
  decodeUInt32Safe_loop.simps [simp del] decodeInt64Safe_loop.simps [simp del]

lemma bit_x7F: "bit (0x7F :: 'a::len word) n \<longleftrightarrow> n < 7 \<and> n < LENGTH('a)"
proof -
  have e: "(mask 7 :: 'a word) = 0x7F" by (simp add: mask_eq_exp_minus_1)
  have "bit (mask 7 :: 'a word) n \<longleftrightarrow> n < 7 \<and> n < LENGTH('a)" by (auto simp: bit_simps)
  then show ?thesis unfolding e .
qed

lemma bit_x80: "bit (0x80 :: 'a::len word) n \<longleftrightarrow> n = 7 \<and> 7 < LENGTH('a)"
proof -
  have "(0x80 :: 'a word) = 2 ^ 7" by simp
  then show ?thesis by (metis bit_exp_iff possible_bit_word)
qed

lemma bit_x7F_int: "bit (0x7F :: int) n \<longleftrightarrow> n < 7"
proof -
  have e: "(mask 7 :: int) = 0x7F" by (simp add: mask_eq_exp_minus_1)
  have "bit (mask 7 :: int) n \<longleftrightarrow> n < 7" by (auto simp: bit_simps)
  then show ?thesis unfolding e .
qed

lemma bit_x80_int: "bit (0x80 :: int) n \<longleftrightarrow> n = 7"
proof -
  have "(0x80 :: int) = 2 ^ 7" by simp
  then show ?thesis by (metis bit_exp_iff possible_bit_int)
qed

lemmas bit_x = bit_x7F bit_x80 bit_x7F_int bit_x80_int

lemma continuation_bit: "((b :: byte) AND 0x80 = 0) \<longleftrightarrow> \<not> bit b 7"
proof
  assume "b AND 0x80 = 0"
  then have "\<not> bit (b AND 0x80) 7" by simp
  then show "\<not> bit b 7" by (simp add: bit_simps bit_x)
next
  assume "\<not> bit b 7"
  then show "b AND 0x80 = 0"
    by (intro bit_word_eqI) (auto simp: bit_simps bit_x)
qed

lemma lt80_bits:
  fixes w :: "'a::len word"
  assumes "\<not> 0x80 \<le> w" and "bit w n"
  shows "n < 7"
proof -
  have "w < 2 ^ 7" using assms(1) by (simp add: not_le)
  then have "w AND mask 7 = w" by (rule less_mask_eq)
  then have "bit (w AND mask 7) n" using assms(2) by simp
  then show ?thesis by (simp add: bit_simps)
qed

lemma lt80_drop_bits:
  fixes v :: "'a::len word"
  assumes "\<not> 0x80 \<le> drop_bit s v" and "bit v n" and "s \<le> n"
  shows "n - s < 7" and "n - s < 8"
proof -
  have "bit (drop_bit s v) (n - s)" using assms(2,3) by (simp add: bit_simps)
  then show "n - s < 7" using lt80_bits[OF assms(1)] by blast
  then show "n - s < 8" by simp
qed

lemma x80_le_drop_bit:
  fixes v :: "'a::len word"
  assumes "0x80 \<le> drop_bit s v" and "7 < LENGTH('a)"
  shows "s + 7 < LENGTH('a)"
proof (rule ccontr)
  assume "\<not> s + 7 < LENGTH('a)"
  then have le: "LENGTH('a) \<le> s + 7" by simp
  have "\<And>n. bit (drop_bit s v) n \<Longrightarrow> n < 7"
  proof -
    fix n assume "bit (drop_bit s v) n"
    then have "bit v (s + n)" by (simp add: bit_simps)
    from bit_imp_le_length[OF this] le show "n < 7" by simp
  qed
  then have "drop_bit s v AND mask 7 = drop_bit s v"
    by (intro bit_word_eqI) (auto simp: bit_simps)
  moreover have "drop_bit s v AND mask 7 < 2 ^ 7"
    by (rule and_mask_less_size) (simp add: word_size assms(2))
  ultimately have "drop_bit s v < 2 ^ 7" by simp
  with assms(1) show False by simp
qed

lemma step_bits:
  fixes v :: "'a::len word"
  shows "take_bit s v OR push_bit s (ucast (ucast (drop_bit s v AND 0x7F OR 0x80) AND (0x7F :: byte)))
         = take_bit (s + 7) v"
  by (rule bit_word_eqI) (auto simp: bit_simps bit_x)

lemma last_bits:
  fixes v :: "'a::len word"
  assumes "\<not> 0x80 \<le> drop_bit s v"
  shows "take_bit s v OR push_bit s (ucast (ucast (drop_bit s v) AND (0x7F :: byte))) = v"
  using lt80_drop_bits[OF assms]
  by (intro bit_word_eqI) (auto simp: bit_simps bit_x)

lemma zigzag_roundtrip:
  fixes v :: "'a::len word"
  shows "zigzag_decode (push_bit 1 v XOR signed_drop_bit (LENGTH('a) - 1) v) = v"
proof -
  have pb: "bit (v * 2) m \<longleftrightarrow> 0 < m \<and> m < LENGTH('a) \<and> bit v (m - 1)" for m
    using bit_push_bit_iff[of 1 v m] by (auto simp: Suc_le_eq)
  show ?thesis
  proof (cases "bit v (LENGTH('a) - 1)")
    case False
    have s: "signed_drop_bit (LENGTH('a) - 1) v = 0"
      using False by (intro bit_word_eqI) (auto simp: bit_simps Suc_le_eq)
    have a: "(push_bit 1 v XOR 0) AND 1 = 0"
      by (simp add: and_one_eq flip: even_iff_mod_2_eq_zero)
    have d: "drop_bit 1 (push_bit 1 v XOR 0) = v"
    proof (rule bit_word_eqI)
      fix n assume "n < LENGTH('a)"
      then show "bit (drop_bit 1 (push_bit 1 v XOR 0)) n = bit v n"
        using False by (cases "n = LENGTH('a) - 1") (auto simp: bit_simps pb)
    qed
    show ?thesis unfolding zigzag_decode_def s a d by simp
  next
    case True
    have s: "signed_drop_bit (LENGTH('a) - 1) v = - 1"
      using True by (intro bit_word_eqI) (auto simp: bit_simps Suc_le_eq)
    have a: "(push_bit 1 v XOR - 1) AND 1 = 1"
      by (simp add: and_one_eq flip: odd_iff_mod_2_eq_one)
    have d: "drop_bit 1 (push_bit 1 v XOR - 1) XOR - 1 = v"
    proof (rule bit_word_eqI)
      fix n assume "n < LENGTH('a)"
      then show "bit (drop_bit 1 (push_bit 1 v XOR - 1) XOR - 1) n = bit v n"
        using True by (cases "n = LENGTH('a) - 1") (auto simp: bit_simps pb)
    qed
    show ?thesis unfolding zigzag_decode_def s a d by simp
  qed
qed


lemma zigzag32: 
  fixes v :: "32 word"
  shows "zigzag_decode (push_bit 1 v XOR signed_drop_bit 31 v) = v"
  using zigzag_roundtrip[of v] by simp

lemma zigzag64: 
  fixes v :: "64 word"
  shows "zigzag_decode (push_bit 1 v XOR signed_drop_bit 63 v) = v"
  using zigzag_roundtrip[of v] by simp

lemma decode_loop_encode32:
  assumes "shift = 7 * pos" "length pre = pos" "result = take_bit shift v"
    "w = drop_bit shift v" "pos < 5" "pos + length (Varint_encodeUInt32 w) \<le> n"
  shows "decodeUInt32Safe_loop (pre @ Varint_encodeUInt32 w @ rest) n result shift pos
         = Inr (v, pos + length (Varint_encodeUInt32 w))"
  using assms
proof (induction w arbitrary: pre pos shift result rule: Varint_encodeUInt32.induct)
  case (1 w)
  show ?case
  proof (cases "0x80 \<le> w")
    case True
    let ?b = "ucast ((w AND 0x7F) OR 0x80) :: byte"
    have enc: "Varint_encodeUInt32 w = ?b # Varint_encodeUInt32 (drop_bit 7 w)"
      using True by (subst Varint_encodeUInt32.simps) simp
    have "7 * pos + 7 < 32"
      using True "1.prems"(1,4) x80_le_drop_bit[of "7 * pos" v] by simp
    then have p4: "pos < 4" by simp
    have "bit (?b AND 0x80) 7" by (simp add: bit_simps bit_x)
    then have cont: "?b AND 0x80 \<noteq> 0" by auto
    have IH: "decodeUInt32Safe_loop ((pre @ [?b]) @ Varint_encodeUInt32 (drop_bit 7 w) @ rest) n
                (take_bit (shift + 7) v) (shift + 7) (pos + 1)
              = Inr (v, (pos + 1) + length (Varint_encodeUInt32 (drop_bit 7 w)))"
      apply (rule "1.IH"[OF True])
      using "1.prems" p4 enc by (simp_all add: add.commute)
    show ?thesis
      apply (subst decodeUInt32Safe_loop.simps)
      using "1.prems" p4 enc cont IH
      apply (simp add: Let_def nth_append step_bits)
      done
  next
    case False
    have enc: "Varint_encodeUInt32 w = [ucast w]"
      using False by (subst Varint_encodeUInt32.simps) simp
    have stop: "(ucast w :: byte) AND 0x80 = 0"
      using lt80_bits[OF False]
      by (intro bit_word_eqI) (auto simp add: bit_simps bit_x)
    show ?thesis
      apply (subst decodeUInt32Safe_loop.simps)
      using "1.prems" enc stop False last_bits[of shift v]
      apply (simp add: Let_def nth_append)
      done
  qed
qed

lemma decode_loop_encode64:
  assumes "shift = 7 * pos" "length pre = pos" "result = take_bit shift v"
    "w = drop_bit shift v" "pos < 10" "pos + length (encodeInt64_loop w) \<le> n"
  shows "decodeInt64Safe_loop (pre @ encodeInt64_loop w @ rest) n result shift pos
         = Inr (zigzag_decode v, pos + length (encodeInt64_loop w))"
  using assms
proof (induction w arbitrary: pre pos shift result rule: encodeInt64_loop.induct)
  case (1 w)
  show ?case
  proof (cases "0x80 \<le> w")
    case True
    let ?b = "ucast ((w AND 0x7F) OR 0x80) :: byte"
    have enc: "encodeInt64_loop w = ?b # encodeInt64_loop (drop_bit 7 w)"
      using True by (subst encodeInt64_loop.simps) simp
    have "7 * pos + 7 < 64"
      using True "1.prems"(1,4) x80_le_drop_bit[of "7 * pos" v] by simp
    then have p4: "pos < 9" by simp
    have "bit (?b AND 0x80) 7" by (simp add: bit_simps bit_x)
    then have cont: "?b AND 0x80 \<noteq> 0" by auto
    have IH: "decodeInt64Safe_loop ((pre @ [?b]) @ encodeInt64_loop (drop_bit 7 w) @ rest) n
                (take_bit (shift + 7) v) (shift + 7) (pos + 1)
              = Inr (zigzag_decode v, (pos + 1) + length (encodeInt64_loop (drop_bit 7 w)))"
      apply (rule "1.IH"[OF True])
      using "1.prems" p4 enc by (simp_all add: add.commute)
    show ?thesis
      apply (subst decodeInt64Safe_loop.simps)
      using "1.prems" p4 enc cont IH
      apply (simp add: Let_def nth_append step_bits)
      done
  next
    case False
    have enc: "encodeInt64_loop w = [ucast w]"
      using False by (subst encodeInt64_loop.simps) simp
    have stop: "(ucast w :: byte) AND 0x80 = 0"
      using lt80_bits[OF False]
      by (intro bit_word_eqI) (auto simp add: bit_simps bit_x)
    show ?thesis
      apply (subst decodeInt64Safe_loop.simps)
      using "1.prems" enc stop False last_bits[of shift v]
      apply (simp add: Let_def nth_append)
      done
  qed
qed

lemma decodeUInt32Safe_encode:
  assumes "length (Varint_encodeUInt32 v) \<le> n"
  shows "Varint_decodeUInt32Safe (Varint_encodeUInt32 v @ rest) n
         = Inr (v, length (Varint_encodeUInt32 v))"
  using decode_loop_encode32[of 0 0 "[]" 0 v v n rest] assms
  by (simp add: Varint_decodeUInt32Safe_def)

lemma decodeInt32Safe_encode:
  assumes "length (Varint_encodeInt32 v) \<le> n"
  shows "Varint_decodeInt32Safe (Varint_encodeInt32 v @ rest) n
         = Inr (v, length (Varint_encodeInt32 v))"
  using decodeUInt32Safe_encode[of "push_bit 1 v XOR signed_drop_bit 31 v" n rest] assms zigzag32[of v]
  by (simp add: Varint_decodeInt32Safe_def Varint_encodeInt32_def)

lemma decodeInt64Safe_encode:
  assumes "length (Varint_encodeInt64 v) \<le> n"
  shows "Varint_decodeInt64Safe (Varint_encodeInt64 v @ rest) n
         = Inr (v, length (Varint_encodeInt64 v))"
  using decode_loop_encode64[of 0 0 "[]" 0 "push_bit 1 v XOR signed_drop_bit 63 v" 
      "push_bit 1 v XOR signed_drop_bit 63 v" n rest] assms zigzag64[of v]
  by (simp add: Varint_decodeInt64Safe_def Varint_encodeInt64_def)


subsection \<open>Layout of an encoded varint\<close>

lemma payload_step:
  fixes v :: "'a::len word"
  shows "ucast ((ucast (v AND 0x7F OR 0x80) :: byte) AND 0x7F) OR push_bit 7 (drop_bit 7 v) = v"
proof (rule bit_word_eqI)
  fix n assume "n < LENGTH('a)"
  then show "bit (ucast ((ucast (v AND 0x7F OR 0x80) :: byte) AND 0x7F) OR push_bit 7 (drop_bit 7 v)) n
             = bit v n"
    by (cases "n < 7") (auto simp: bit_simps bit_x)
qed

lemma payload_last:
  fixes v :: "'a::len word"
  assumes "\<not> 0x80 \<le> v"
  shows "ucast ((ucast v :: byte) AND 0x7F) = v"
proof (rule bit_word_eqI)
  fix n assume "n < LENGTH('a)"
  have "bit v n \<Longrightarrow> n < 7" using lt80_bits[OF assms] by blast
  then show "bit (ucast ((ucast v :: byte) AND 0x7F) :: 'a word) n = bit v n"
    using \<open>n < LENGTH('a)\<close> by (cases "n < 7") (auto simp: bit_simps bit_x)
qed

lemma encodeUInt32_layout:
  "(\<forall>b \<in> set (butlast (Varint_encodeUInt32 v)). bit b 7) \<and>
   \<not> bit (last (Varint_encodeUInt32 v)) 7 \<and>
   varint_payload (Varint_encodeUInt32 v) = v"
proof (induction v rule: Varint_encodeUInt32.induct)
  case (1 v)
  show ?case
  proof (cases "0x80 \<le> v")
    case True
    let ?b = "ucast ((v AND 0x7F) OR 0x80) :: byte"
    have enc: "Varint_encodeUInt32 v = ?b # Varint_encodeUInt32 (drop_bit 7 v)"
      using True by (subst Varint_encodeUInt32.simps) simp
    have ne: "Varint_encodeUInt32 (drop_bit 7 v) \<noteq> []"
      by (subst Varint_encodeUInt32.simps) simp
    have b7: "bit ?b 7" by (simp add: bit_simps bit_x)
    show ?thesis using "1.IH"[OF True] ne b7 by (simp add: enc payload_step)
  next
    case False
    have enc: "Varint_encodeUInt32 v = [ucast v]"
      using False by (subst Varint_encodeUInt32.simps) simp
    have "\<not> bit (ucast v :: byte) 7" using lt80_bits[OF False, of 7] by (auto simp: bit_simps)
    then show ?thesis by (simp add: enc payload_last[OF False])
  qed
qed

lemma encodeInt64_loop_layout:
  "(\<forall>b \<in> set (butlast (encodeInt64_loop v)). bit b 7) \<and>
   \<not> bit (last (encodeInt64_loop v)) 7 \<and>
   varint_payload (encodeInt64_loop v) = v"
proof (induction v rule: encodeInt64_loop.induct)
  case (1 v)
  show ?case
  proof (cases "0x80 \<le> v")
    case True
    let ?b = "ucast ((v AND 0x7F) OR 0x80) :: byte"
    have enc: "encodeInt64_loop v = ?b # encodeInt64_loop (drop_bit 7 v)"
      using True by (subst encodeInt64_loop.simps) simp
    have ne: "encodeInt64_loop (drop_bit 7 v) \<noteq> []"
      by (subst encodeInt64_loop.simps) simp
    have b7: "bit ?b 7" by (simp add: bit_simps bit_x)
    show ?thesis using "1.IH"[OF True] ne b7 by (simp add: enc payload_step)
  next
    case False
    have enc: "encodeInt64_loop v = [ucast v]"
      using False by (subst encodeInt64_loop.simps) simp
    have "\<not> bit (ucast v :: byte) 7" using lt80_bits[OF False, of 7] by (auto simp: bit_simps)
    then show ?thesis by (simp add: enc payload_last[OF False])
  qed
qed

subsection \<open>The outcomes of the bounded decoders\<close>

lemma decode32_all_continue:
  assumes "n \<le> length data" "\<And>i. pos \<le> i \<Longrightarrow> i < n \<Longrightarrow> i < 5 \<Longrightarrow> bit (data ! i) 7"
    "shift = 7 * pos" "pos < 5"
  shows "decodeUInt32Safe_loop data n result shift pos = (if n < 5 then Inl Truncated else Inl Overflow)"
  using assms
proof (induction "5 - pos" arbitrary: pos result shift)
  case 0
  then show ?case by simp
next
  case (Suc d)
  show ?case
  proof (cases "pos < n")
    case False
    then show ?thesis using Suc.prems by (subst decodeUInt32Safe_loop.simps) simp
  next
    case True
    have c: "data ! pos AND 0x80 \<noteq> 0" using Suc.prems(2)[of pos] True Suc.prems(4)
      by (simp add: continuation_bit)
    show ?thesis
    proof (cases "pos + 1 < 5")
      case False
      then show ?thesis using True c Suc.prems
        by (subst decodeUInt32Safe_loop.simps) (simp add: Let_def)
    next
      case t: True
      have "decodeUInt32Safe_loop data n (result OR push_bit shift (ucast (data ! pos AND 0x7F)))
              (shift + 7) (pos + 1) = (if n < 5 then Inl Truncated else Inl Overflow)"
        apply (rule Suc.hyps(1))
        using Suc.hyps(2) Suc.prems t by simp_all
      then show ?thesis using True c Suc.prems t
        by (subst decodeUInt32Safe_loop.simps) (simp add: Let_def)
    qed
  qed
qed

lemma decode32_terminator:
  assumes "n \<le> length data" "k < n" "k < 5" "\<not> bit (data ! k) 7"
    "\<And>i. pos \<le> i \<Longrightarrow> i < k \<Longrightarrow> bit (data ! i) 7" "pos \<le> k" "shift = 7 * pos"
  shows "decodeUInt32Safe_loop data n result shift pos
         = Inr (result OR push_bit shift (varint_payload (take (k + 1 - pos) (drop pos data))), k + 1)"
  using assms
proof (induction "k - pos" arbitrary: pos result shift)
  case 0
  then have pk: "pos = k" by simp
  have t: "take (Suc 0) (drop k data) = [data ! k]"
    using "0.prems"(1,2) by (simp add: take_Suc_conv_app_nth)
  show ?case using "0.prems" pk t
    by (subst decodeUInt32Safe_loop.simps) (simp add: Let_def continuation_bit)
next
  case (Suc d)
  then have lt: "pos < k" by simp
  have c: "data ! pos AND 0x80 \<noteq> 0" using Suc.prems(5)[of pos] lt
    by (simp add: continuation_bit)
  have t: "take (k + 1 - pos) (drop pos data) = data ! pos # take (k + 1 - (pos + 1)) (drop (pos + 1) data)"
  proof -
    have pl: "pos < length data" using Suc.prems(1,2) lt by simp
    have d: "drop pos data = data ! pos # drop (pos + 1) data"
      using Cons_nth_drop_Suc[OF pl] by simp
    have e: "k + 1 - pos = Suc (k + 1 - (pos + 1))" using lt by simp
    show ?thesis by (simp only: d e take_Suc_Cons)
  qed
  have IH: "decodeUInt32Safe_loop data n (result OR push_bit shift (ucast (data ! pos AND 0x7F)))
              (shift + 7) (pos + 1)
            = Inr ((result OR push_bit shift (ucast (data ! pos AND 0x7F))) OR
                   push_bit (shift + 7) (varint_payload (take (k + 1 - (pos + 1)) (drop (pos + 1) data))), k + 1)"
    apply (rule Suc.hyps(1))
    using Suc.hyps(2) Suc.prems lt by simp_all
  have bits: "(result OR push_bit shift (ucast (data ! pos AND 0x7F))) OR
                   push_bit (shift + 7) (varint_payload (take (k + 1 - (pos + 1)) (drop (pos + 1) data)))
              = result OR push_bit shift (varint_payload (take (k + 1 - pos) (drop pos data)))"
    unfolding t by (simp add: push_bit_or push_bit_push_bit or.assoc add.commute)
  show ?case using Suc.prems lt c IH bits
    by (subst decodeUInt32Safe_loop.simps) (simp add: Let_def)
qed

lemma decode64_all_continue:
  assumes "n \<le> length data" "\<And>i. pos \<le> i \<Longrightarrow> i < n \<Longrightarrow> i < 10 \<Longrightarrow> bit (data ! i) 7"
    "shift = 7 * pos" "pos < 10"
  shows "decodeInt64Safe_loop data n result shift pos = (if n < 10 then Inl Truncated else Inl Overflow)"
  using assms
proof (induction "10 - pos" arbitrary: pos result shift)
  case 0
  then show ?case by simp
next
  case (Suc d)
  show ?case
  proof (cases "pos < n")
    case False
    then show ?thesis using Suc.prems by (subst decodeInt64Safe_loop.simps) simp
  next
    case True
    have c: "data ! pos AND 0x80 \<noteq> 0" using Suc.prems(2)[of pos] True Suc.prems(4)
      by (simp add: continuation_bit)
    show ?thesis
    proof (cases "pos + 1 < 10")
      case False
      then show ?thesis using True c Suc.prems
        by (subst decodeInt64Safe_loop.simps) (simp add: Let_def)
    next
      case t: True
      have "decodeInt64Safe_loop data n (result OR push_bit shift (ucast (data ! pos AND 0x7F)))
              (shift + 7) (pos + 1) = (if n < 10 then Inl Truncated else Inl Overflow)"
        apply (rule Suc.hyps(1))
        using Suc.hyps(2) Suc.prems t by simp_all
      then show ?thesis using True c Suc.prems t
        by (subst decodeInt64Safe_loop.simps) (simp add: Let_def)
    qed
  qed
qed

lemma decode64_terminator:
  assumes "n \<le> length data" "k < n" "k < 10" "\<not> bit (data ! k) 7"
    "\<And>i. pos \<le> i \<Longrightarrow> i < k \<Longrightarrow> bit (data ! i) 7" "pos \<le> k" "shift = 7 * pos"
  shows "decodeInt64Safe_loop data n result shift pos
         = Inr (zigzag_decode (result OR push_bit shift (varint_payload (take (k + 1 - pos) (drop pos data)))), k + 1)"
  using assms
proof (induction "k - pos" arbitrary: pos result shift)
  case 0
  then have pk: "pos = k" by simp
  have t: "take (Suc 0) (drop k data) = [data ! k]"
    using "0.prems"(1,2) by (simp add: take_Suc_conv_app_nth)
  show ?case using "0.prems" pk t
    by (subst decodeInt64Safe_loop.simps) (simp add: Let_def continuation_bit)
next
  case (Suc d)
  then have lt: "pos < k" by simp
  have c: "data ! pos AND 0x80 \<noteq> 0" using Suc.prems(5)[of pos] lt
    by (simp add: continuation_bit)
  have t: "take (k + 1 - pos) (drop pos data) = data ! pos # take (k + 1 - (pos + 1)) (drop (pos + 1) data)"
  proof -
    have pl: "pos < length data" using Suc.prems(1,2) lt by simp
    have d: "drop pos data = data ! pos # drop (pos + 1) data"
      using Cons_nth_drop_Suc[OF pl] by simp
    have e: "k + 1 - pos = Suc (k + 1 - (pos + 1))" using lt by simp
    show ?thesis by (simp only: d e take_Suc_Cons)
  qed
  have IH: "decodeInt64Safe_loop data n (result OR push_bit shift (ucast (data ! pos AND 0x7F)))
              (shift + 7) (pos + 1)
            = Inr (zigzag_decode ((result OR push_bit shift (ucast (data ! pos AND 0x7F))) OR
                   push_bit (shift + 7) (varint_payload (take (k + 1 - (pos + 1)) (drop (pos + 1) data)))), k + 1)"
    apply (rule Suc.hyps(1))
    using Suc.hyps(2) Suc.prems lt by simp_all
  have bits: "(result OR push_bit shift (ucast (data ! pos AND 0x7F))) OR
                   push_bit (shift + 7) (varint_payload (take (k + 1 - (pos + 1)) (drop (pos + 1) data)))
              = result OR push_bit shift (varint_payload (take (k + 1 - pos) (drop pos data)))"
    unfolding t by (simp add: push_bit_or push_bit_push_bit or.assoc add.commute)
  show ?case using Suc.prems lt c IH bits
    by (subst decodeInt64Safe_loop.simps) (simp add: Let_def)
qed



lemma decodeUInt32Safe_terminator:
  assumes "n \<le> length data" "k < n" "k < 5" "\<not> bit (data ! k) 7" "\<forall>i<k. bit (data ! i) 7"
  shows "Varint_decodeUInt32Safe data n = Inr (varint_payload (take (k + 1) data), k + 1)"
  using decode32_terminator[OF assms(1,2,3,4), of 0 0 0] assms(5)
  by (simp add: Varint_decodeUInt32Safe_def)

lemma decodeUInt32Safe_no_terminator:
  assumes "n \<le> length data" "\<forall>i. i < n \<and> i < 5 \<longrightarrow> bit (data ! i) 7"
  shows "Varint_decodeUInt32Safe data n = (if n < 5 then Inl Truncated else Inl Overflow)"
  using decode32_all_continue[OF assms(1), of 0 0] assms(2)
  by (simp add: Varint_decodeUInt32Safe_def)

lemma decodeUInt32Safe_outcomes:
  assumes "n \<le> length data"
  shows "(Varint_decodeUInt32Safe data n = Inl Truncated \<longleftrightarrow> n < 5 \<and> (\<forall>i<n. bit (data ! i) 7)) \<and>
         (Varint_decodeUInt32Safe data n = Inl Overflow \<longleftrightarrow> 5 \<le> n \<and> (\<forall>i<5. bit (data ! i) 7)) \<and>
         (\<forall>k. k < n \<and> k < 5 \<and> \<not> bit (data ! k) 7 \<and> (\<forall>i<k. bit (data ! i) 7) \<longrightarrow>
              Varint_decodeUInt32Safe data n = Inr (varint_payload (take (k + 1) data), k + 1))"
proof (cases "\<exists>k. k < n \<and> k < 5 \<and> \<not> bit (data ! k) 7")
  case True
  then obtain k where k: "k < n \<and> k < 5 \<and> \<not> bit (data ! k) 7"
    and least: "\<forall>m<k. \<not> (m < n \<and> m < 5 \<and> \<not> bit (data ! m) 7)"
    using exists_least_iff[of "\<lambda>k. k < n \<and> k < 5 \<and> \<not> bit (data ! k) 7"] by blast
  have pre: "\<forall>i<k. bit (data ! i) 7" using k least by auto
  have r: "Varint_decodeUInt32Safe data n = Inr (varint_payload (take (k + 1) data), k + 1)"
    using decodeUInt32Safe_terminator[OF assms] k pre by blast
  have nt: "\<not> (n < 5 \<and> (\<forall>i<n. bit (data ! i) 7))" using k by blast
  have no: "\<not> (5 \<le> n \<and> (\<forall>i<5. bit (data ! i) 7))" using k by blast
  have 1: "Varint_decodeUInt32Safe data n = Inl Truncated \<longleftrightarrow> n < 5 \<and> (\<forall>i<n. bit (data ! i) 7)"
    using r nt by simp
  have 2: "Varint_decodeUInt32Safe data n = Inl Overflow \<longleftrightarrow> 5 \<le> n \<and> (\<forall>i<5. bit (data ! i) 7)"
    using r no by simp
  have 3: "\<forall>k. k < n \<and> k < 5 \<and> \<not> bit (data ! k) 7 \<and> (\<forall>i<k. bit (data ! i) 7) \<longrightarrow>
              Varint_decodeUInt32Safe data n = Inr (varint_payload (take (k + 1) data), k + 1)"
    using decodeUInt32Safe_terminator[OF assms] by blast
  show ?thesis using 1 2 3 by blast
next
  case False
  then have all: "\<forall>i. i < n \<and> i < 5 \<longrightarrow> bit (data ! i) 7" by blast
  note r = decodeUInt32Safe_no_terminator[OF assms all]
  have 1: "Varint_decodeUInt32Safe data n = Inl Truncated \<longleftrightarrow> n < 5 \<and> (\<forall>i<n. bit (data ! i) 7)"
    using r all by (cases "n < 5") auto
  have 2: "Varint_decodeUInt32Safe data n = Inl Overflow \<longleftrightarrow> 5 \<le> n \<and> (\<forall>i<5. bit (data ! i) 7)"
    using r all by (cases "n < 5") auto
  have 3: "\<forall>k. k < n \<and> k < 5 \<and> \<not> bit (data ! k) 7 \<and> (\<forall>i<k. bit (data ! i) 7) \<longrightarrow>
              Varint_decodeUInt32Safe data n = Inr (varint_payload (take (k + 1) data), k + 1)"
    using False by blast
  show ?thesis using 1 2 3 by blast
qed

lemma decodeInt64Safe_terminator:
  assumes "n \<le> length data" "k < n" "k < 10" "\<not> bit (data ! k) 7" "\<forall>i<k. bit (data ! i) 7"
  shows "Varint_decodeInt64Safe data n = Inr (zigzag_decode (varint_payload (take (k + 1) data)), k + 1)"
  using decode64_terminator[OF assms(1,2,3,4), of 0 0 0] assms(5)
  by (simp add: Varint_decodeInt64Safe_def)

lemma decodeInt64Safe_no_terminator:
  assumes "n \<le> length data" "\<forall>i. i < n \<and> i < 10 \<longrightarrow> bit (data ! i) 7"
  shows "Varint_decodeInt64Safe data n = (if n < 10 then Inl Truncated else Inl Overflow)"
  using decode64_all_continue[OF assms(1), of 0 0] assms(2)
  by (simp add: Varint_decodeInt64Safe_def)

lemma decodeInt64Safe_outcomes:
  assumes "n \<le> length data"
  shows "(Varint_decodeInt64Safe data n = Inl Truncated \<longleftrightarrow> n < 10 \<and> (\<forall>i<n. bit (data ! i) 7)) \<and>
         (Varint_decodeInt64Safe data n = Inl Overflow \<longleftrightarrow> 10 \<le> n \<and> (\<forall>i<10. bit (data ! i) 7)) \<and>
         (\<forall>k. k < n \<and> k < 10 \<and> \<not> bit (data ! k) 7 \<and> (\<forall>i<k. bit (data ! i) 7) \<longrightarrow>
              Varint_decodeInt64Safe data n = Inr (zigzag_decode (varint_payload (take (k + 1) data)), k + 1))"
proof (cases "\<exists>k. k < n \<and> k < 10 \<and> \<not> bit (data ! k) 7")
  case True
  then obtain k where k: "k < n \<and> k < 10 \<and> \<not> bit (data ! k) 7"
    and least: "\<forall>m<k. \<not> (m < n \<and> m < 10 \<and> \<not> bit (data ! m) 7)"
    using exists_least_iff[of "\<lambda>k. k < n \<and> k < 10 \<and> \<not> bit (data ! k) 7"] by blast
  have pre: "\<forall>i<k. bit (data ! i) 7" using k least by auto
  have r: "Varint_decodeInt64Safe data n = Inr (zigzag_decode (varint_payload (take (k + 1) data)), k + 1)"
    using decodeInt64Safe_terminator[OF assms] k pre by blast
  have nt: "\<not> (n < 10 \<and> (\<forall>i<n. bit (data ! i) 7))" using k by blast
  have no: "\<not> (10 \<le> n \<and> (\<forall>i<10. bit (data ! i) 7))" using k by blast
  have 1: "Varint_decodeInt64Safe data n = Inl Truncated \<longleftrightarrow> n < 10 \<and> (\<forall>i<n. bit (data ! i) 7)"
    using r nt by simp
  have 2: "Varint_decodeInt64Safe data n = Inl Overflow \<longleftrightarrow> 10 \<le> n \<and> (\<forall>i<10. bit (data ! i) 7)"
    using r no by simp
  have 3: "\<forall>k. k < n \<and> k < 10 \<and> \<not> bit (data ! k) 7 \<and> (\<forall>i<k. bit (data ! i) 7) \<longrightarrow>
              Varint_decodeInt64Safe data n = Inr (zigzag_decode (varint_payload (take (k + 1) data)), k + 1)"
    using decodeInt64Safe_terminator[OF assms] by blast
  show ?thesis using 1 2 3 by blast
next
  case False
  then have all: "\<forall>i. i < n \<and> i < 10 \<longrightarrow> bit (data ! i) 7" by blast
  note r = decodeInt64Safe_no_terminator[OF assms all]
  have 1: "Varint_decodeInt64Safe data n = Inl Truncated \<longleftrightarrow> n < 10 \<and> (\<forall>i<n. bit (data ! i) 7)"
    using r all by (cases "n < 10") auto
  have 2: "Varint_decodeInt64Safe data n = Inl Overflow \<longleftrightarrow> 10 \<le> n \<and> (\<forall>i<10. bit (data ! i) 7)"
    using r all by (cases "n < 10") auto
  have 3: "\<forall>k. k < n \<and> k < 10 \<and> \<not> bit (data ! k) 7 \<and> (\<forall>i<k. bit (data ! i) 7) \<longrightarrow>
              Varint_decodeInt64Safe data n = Inr (zigzag_decode (varint_payload (take (k + 1) data)), k + 1)"
    using False by blast
  show ?thesis using 1 2 3 by blast
qed

text \<open>
  Claim C4 says that the bounded decoders fail with \<open>Truncated\<close> exactly when the buffer ends
  before a byte with the continuation bit clear. They do so only when fewer than 5 (10) bytes
  remain: the test of the byte count comes before the next test of the buffer end, so a buffer
  of 5 (10) bytes that all have bit 7 set ends before any terminator and yet gives \<open>Overflow\<close>,
  where 4 such bytes give \<open>Truncated\<close>.
\<close>

theorem C4_overflow_before_truncated_counterexample:
  "Varint_decodeUInt32Safe [0x80, 0x80, 0x80, 0x80, 0x80] 5 = Inl Overflow \<and>
   Varint_decodeUInt32Safe [0x80, 0x80, 0x80, 0x80] 4 = Inl Truncated \<and>
   Varint_decodeInt64Safe [0x80, 0x80, 0x80, 0x80, 0x80, 0x80, 0x80, 0x80, 0x80, 0x80] 10
     = Inl Overflow \<and>
   Varint_decodeInt64Safe [0x80, 0x80, 0x80, 0x80, 0x80, 0x80, 0x80, 0x80, 0x80] 9
     = Inl Truncated"
  by code_simp

text \<open>
  Claim C4, amended. For a buffer of which \<open>n\<close> bytes remain (\<open>n \<le> length data\<close>), the bounded
  decoders have exactly three outcomes. \<open>decodeUInt32Safe\<close> fails with \<open>Truncated\<close> exactly when
  fewer than 5 bytes remain and each of them has bit 7 set; it fails with \<open>Overflow\<close> exactly
  when the first 5 bytes all have bit 7 set, whether or not the buffer ends there; otherwise
  the first byte \<open>k\<close> with bit 7 clear ends the varint, and the decoder returns the value of
  the \<open>k + 1\<close> bytes (7 bits each, least significant group first, cut to 32 bits) together
  with \<open>k + 1\<close> as the number of bytes consumed. \<open>decodeInt64Safe\<close> does the same with 10 bytes
  and 64 bits, and returns the value \<open>p\<close> of the bytes after the zigzag inverse
  \<open>(p >> 1) ^ -(p & 1)\<close>.
\<close>

theorem C4_bounded_varint_outcomes:
  assumes "n \<le> length data"
  shows "(Varint_decodeUInt32Safe data n = Inl Truncated \<longleftrightarrow> n < 5 \<and> (\<forall>i<n. bit (data ! i) 7)) \<and>
         (Varint_decodeUInt32Safe data n = Inl Overflow \<longleftrightarrow> 5 \<le> n \<and> (\<forall>i<5. bit (data ! i) 7)) \<and>
         (\<forall>k. k < n \<and> k < 5 \<and> \<not> bit (data ! k) 7 \<and> (\<forall>i<k. bit (data ! i) 7) \<longrightarrow>
              Varint_decodeUInt32Safe data n = Inr (varint_payload (take (k + 1) data), k + 1)) \<and>
         (Varint_decodeInt64Safe data n = Inl Truncated \<longleftrightarrow> n < 10 \<and> (\<forall>i<n. bit (data ! i) 7)) \<and>
         (Varint_decodeInt64Safe data n = Inl Overflow \<longleftrightarrow> 10 \<le> n \<and> (\<forall>i<10. bit (data ! i) 7)) \<and>
         (\<forall>k. k < n \<and> k < 10 \<and> \<not> bit (data ! k) 7 \<and> (\<forall>i<k. bit (data ! i) 7) \<longrightarrow>
              Varint_decodeInt64Safe data n =
                Inr (drop_bit 1 (varint_payload (take (k + 1) data)) XOR
                       - (varint_payload (take (k + 1) data) AND 1),
                     k + 1))"
  using decodeUInt32Safe_outcomes[OF assms] decodeInt64Safe_outcomes[OF assms]
  unfolding zigzag_decode_def by simp

theorem C4_bounded_varint_outcomes_witness:
  "Varint_decodeUInt32Safe [0x80, 0x80] 2 = Inl Truncated \<and>
   Varint_decodeInt64Safe [0x80, 0x80] 2 = Inl Truncated \<and>
   Varint_decodeUInt32Safe [0x80, 0x80] 2 \<noteq> Inl Overflow \<and>
   Varint_decodeUInt32Safe [0xAC, 0x02, 0xFF] 3 = Inr (300, 2) \<and>
   Varint_decodeInt64Safe [0x9F, 0x9C, 0x01] 3 = Inr (- 10000, 3) \<and>
   Varint_decodeInt64Safe [0xA0, 0x9C, 0x01] 3 = Inr (10000, 3)"
proof -
  have len: "2 \<le> length [0x80, 0x80 :: byte]" by simp
  have bits: "\<forall>i<2. bit ([0x80, 0x80 :: byte] ! i) 7"
    by (simp add: less_2_cases_iff bit_x)
  note t = C4_bounded_varint_outcomes[OF len]
  have a: "Varint_decodeUInt32Safe [0x80, 0x80] 2 = Inl Truncated"
    using conjunct1[OF t] bits by simp
  have b: "Varint_decodeInt64Safe [0x80, 0x80] 2 = Inl Truncated"
    using conjunct1[OF conjunct2[OF conjunct2[OF conjunct2[OF t]]]] bits by simp
  have c: "Varint_decodeUInt32Safe [0x80, 0x80] 2 \<noteq> Inl Overflow"
    using conjunct1[OF conjunct2[OF t]] by simp
  have len3: "3 \<le> length [0xAC, 0x02, 0xFF :: byte]" by simp
  have h3: "(1 :: nat) < 3 \<and> (1 :: nat) < 5 \<and> \<not> bit ([0xAC, 0x02, 0xFF :: byte] ! 1) 7 \<and>
            (\<forall>i<1. bit ([0xAC, 0x02, 0xFF :: byte] ! i) 7)"
    by simp
  have p3: "(varint_payload (take (1 + 1) [0xAC, 0x02, 0xFF :: byte]) :: 32 word) = 300"
    by code_simp
  have d: "Varint_decodeUInt32Safe [0xAC, 0x02, 0xFF] 3 = Inr (300, 2)"
    using conjunct1[OF conjunct2[OF conjunct2[OF C4_bounded_varint_outcomes[OF len3]]],
        rule_format, OF h3] unfolding p3 by simp
  have len4: "3 \<le> length [0x9F, 0x9C, 0x01 :: byte]" by simp
  have h4: "(2 :: nat) < 3 \<and> (2 :: nat) < 10 \<and> \<not> bit ([0x9F, 0x9C, 0x01 :: byte] ! 2) 7 \<and>
            (\<forall>i<2. bit ([0x9F, 0x9C, 0x01 :: byte] ! i) 7)"
    by (simp add: less_2_cases_iff)
  have p4: "(varint_payload (take (2 + 1) [0x9F, 0x9C, 0x01 :: byte]) :: 64 word) = 19999"
    by code_simp
  have z4: "drop_bit 1 (19999 :: 64 word) XOR - (19999 AND 1) = - 10000" by code_simp
  have e: "Varint_decodeInt64Safe [0x9F, 0x9C, 0x01] 3 = Inr (- 10000, 3)"
    using conjunct2[OF conjunct2[OF conjunct2[OF conjunct2[OF conjunct2[
        OF C4_bounded_varint_outcomes[OF len4]]]]], rule_format, OF h4]
    unfolding p4 z4 by simp
  have len5: "3 \<le> length [0xA0, 0x9C, 0x01 :: byte]" by simp
  have h5: "(2 :: nat) < 3 \<and> (2 :: nat) < 10 \<and> \<not> bit ([0xA0, 0x9C, 0x01 :: byte] ! 2) 7 \<and>
            (\<forall>i<2. bit ([0xA0, 0x9C, 0x01 :: byte] ! i) 7)"
    by (simp add: less_2_cases_iff)
  have p5: "(varint_payload (take (2 + 1) [0xA0, 0x9C, 0x01 :: byte]) :: 64 word) = 20000"
    by code_simp
  have z5: "drop_bit 1 (20000 :: 64 word) XOR - (20000 AND 1) = 10000" by code_simp
  have f: "Varint_decodeInt64Safe [0xA0, 0x9C, 0x01] 3 = Inr (10000, 3)"
    using conjunct2[OF conjunct2[OF conjunct2[OF conjunct2[OF conjunct2[
        OF C4_bounded_varint_outcomes[OF len5]]]]], rule_format, OF h5]
    unfolding p5 z5 by simp
  show ?thesis using a b c d e f by (intro conjI)
qed


text \<open>
  Claim C5. Decoding what was encoded gives the value back and reports the encoded length as
  \<open>bytes_read\<close>, whenever the buffer length \<open>n\<close> covers the encoded bytes (any bytes \<open>rest\<close>
  may follow): for every \<open>uint32\<close> through \<open>encodeUInt32\<close>/\<open>decodeUInt32Safe\<close>, for every
  \<open>int32\<close> through \<open>encodeInt32\<close>/\<open>decodeInt32Safe\<close> and for every \<open>int64\<close> through
  \<open>encodeInt64\<close>/\<open>decodeInt64Safe\<close>. The signed encoders write the zigzag value
  \<open>(n << 1) ^ (n >> (width - 1))\<close>; the bytes carry 7 payload bits each, least significant
  group first, with bit 7 set on every byte but the last.
\<close>

theorem C5_varint_roundtrip:
  "(length (Varint_encodeUInt32 u) \<le> n \<longrightarrow>
      Varint_decodeUInt32Safe (Varint_encodeUInt32 u @ rest) n
        = Inr (u, length (Varint_encodeUInt32 u))) \<and>
   (length (Varint_encodeInt32 i) \<le> n \<longrightarrow>
      Varint_decodeInt32Safe (Varint_encodeInt32 i @ rest) n
        = Inr (i, length (Varint_encodeInt32 i))) \<and>
   (length (Varint_encodeInt64 l) \<le> n \<longrightarrow>
      Varint_decodeInt64Safe (Varint_encodeInt64 l @ rest) n
        = Inr (l, length (Varint_encodeInt64 l))) \<and>
   Varint_encodeInt32 i = Varint_encodeUInt32 (push_bit 1 i XOR signed_drop_bit 31 i) \<and>
   (\<forall>b \<in> set (butlast (Varint_encodeUInt32 u)). bit b 7) \<and>
   \<not> bit (last (Varint_encodeUInt32 u)) 7 \<and>
   varint_payload (Varint_encodeUInt32 u) = u \<and>
   (\<forall>b \<in> set (butlast (Varint_encodeInt64 l)). bit b 7) \<and>
   \<not> bit (last (Varint_encodeInt64 l)) 7 \<and>
   varint_payload (Varint_encodeInt64 l) = push_bit 1 l XOR signed_drop_bit 63 l"
proof -
  note a = decodeUInt32Safe_encode[of u n rest]
  note b = decodeInt32Safe_encode[of i n rest]
  note c = decodeInt64Safe_encode[of l n rest]
  note d = encodeUInt32_layout[of u]
  note e = encodeInt64_loop_layout[of "push_bit 1 l XOR signed_drop_bit 63 l"]
  show ?thesis
    using a b c d e unfolding Varint_encodeInt64_def Varint_encodeInt32_def by blast
qed

theorem C5_varint_roundtrip_witness:
  "Varint_decodeUInt32Safe (Varint_encodeUInt32 300 @ [0x07]) 3 = Inr (300, 2) \<and>
   Varint_decodeInt32Safe (Varint_encodeInt32 (- 1) @ [0x07]) 3 = Inr (- 1, 1) \<and>
   Varint_decodeInt64Safe (Varint_encodeInt64 (- 10000) @ [0x07]) 3 = Inr (- 10000, 3)"
proof -
  have l1: "length (Varint_encodeUInt32 300) = 2" by code_simp
  have l2: "length (Varint_encodeInt32 (- 1)) = 1" by code_simp
  have l3: "length (Varint_encodeInt64 (- 10000)) = 3" by code_simp
  note t = C5_varint_roundtrip[of 300 3 "[0x07]" "- 1" "- 10000"]
  have a: "Varint_decodeUInt32Safe (Varint_encodeUInt32 300 @ [0x07]) 3
           = Inr (300, length (Varint_encodeUInt32 300))"
    using t l1 by simp
  have b: "Varint_decodeInt32Safe (Varint_encodeInt32 (- 1) @ [0x07]) 3
           = Inr (- 1, length (Varint_encodeInt32 (- 1)))"
    using conjunct1[OF conjunct2[OF t]] l2 by simp
  have c: "Varint_decodeInt64Safe (Varint_encodeInt64 (- 10000) @ [0x07]) 3
           = Inr (- 10000, length (Varint_encodeInt64 (- 10000)))"
    using conjunct1[OF conjunct2[OF conjunct2[OF t]]] l3 by simp
  show ?thesis using a b c unfolding l1 l2 l3 by simp
qed


section \<open>Properties of the RLE decoders\<close>

lemma size_t_sub_le [simp]: "b \<le> a \<Longrightarrow> size_t_sub a b = a - b"
  by (simp add: size_t_sub_def)

lemma size_t_sub_0 [simp]: "size_t_sub a 0 = a"
  by (simp add: size_t_sub_def)

subsection \<open>What a successful varint decode has read\<close>

lemma decodeUInt32Safe_Inr:
  assumes "Varint_decodeUInt32Safe d n = Inr (v, br)" "n \<le> length d"
  shows "\<exists>k. br = k + 1 \<and> k < n \<and> k < 5 \<and> \<not> bit (d ! k) 7 \<and> (\<forall>i<k. bit (d ! i) 7) \<and>
             v = varint_payload (take (k + 1) d)"
proof (cases "\<exists>k. k < n \<and> k < 5 \<and> \<not> bit (d ! k) 7")
  case True
  then obtain k where k: "k < n \<and> k < 5 \<and> \<not> bit (d ! k) 7"
    and least: "\<forall>m<k. \<not> (m < n \<and> m < 5 \<and> \<not> bit (d ! m) 7)"
    using exists_least_iff[of "\<lambda>k. k < n \<and> k < 5 \<and> \<not> bit (d ! k) 7"] by blast
  have pre: "\<forall>i<k. bit (d ! i) 7" using k least by auto
  have "Varint_decodeUInt32Safe d n = Inr (varint_payload (take (k + 1) d), k + 1)"
    using decodeUInt32Safe_terminator[OF assms(2)] k pre by blast
  then show ?thesis using assms(1) k pre by auto
next
  case False
  then have "\<forall>i. i < n \<and> i < 5 \<longrightarrow> bit (d ! i) 7" by blast
  from decodeUInt32Safe_no_terminator[OF assms(2) this] assms(1)
  show ?thesis by (simp split: if_splits)
qed

lemma decodeInt64Safe_Inr:
  assumes "Varint_decodeInt64Safe d n = Inr (v, br)" "n \<le> length d"
  shows "\<exists>k. br = k + 1 \<and> k < n \<and> k < 10 \<and> \<not> bit (d ! k) 7 \<and> (\<forall>i<k. bit (d ! i) 7) \<and>
             v = zigzag_decode (varint_payload (take (k + 1) d))"
proof (cases "\<exists>k. k < n \<and> k < 10 \<and> \<not> bit (d ! k) 7")
  case True
  then obtain k where k: "k < n \<and> k < 10 \<and> \<not> bit (d ! k) 7"
    and least: "\<forall>m<k. \<not> (m < n \<and> m < 10 \<and> \<not> bit (d ! m) 7)"
    using exists_least_iff[of "\<lambda>k. k < n \<and> k < 10 \<and> \<not> bit (d ! k) 7"] by blast
  have pre: "\<forall>i<k. bit (d ! i) 7" using k least by auto
  have "Varint_decodeInt64Safe d n = Inr (zigzag_decode (varint_payload (take (k + 1) d)), k + 1)"
    using decodeInt64Safe_terminator[OF assms(2)] k pre by blast
  then show ?thesis using assms(1) k pre by auto
next
  case False
  then have "\<forall>i. i < n \<and> i < 10 \<longrightarrow> bit (d ! i) 7" by blast
  from decodeInt64Safe_no_terminator[OF assms(2) this] assms(1)
  show ?thesis by (simp split: if_splits)
qed

lemma nth_take_eq:
  assumes "take m d' = take m d" "i < m"
  shows "d' ! i = d ! i"
  by (metis assms nth_take)

lemma reads_prefix_UInt32: "reads_prefix Varint_decodeUInt32Safe"
  unfolding reads_prefix_def
proof (intro allI impI, elim conjE)
  fix d n v br
  assume r: "Varint_decodeUInt32Safe d n = Inr (v, br)" and n: "n \<le> length d"
  from decodeUInt32Safe_Inr[OF r n] obtain k where k: "br = k + 1" "k < n" "k < 5"
    "\<not> bit (d ! k) 7" "\<forall>i<k. bit (d ! i) 7" "v = varint_payload (take (k + 1) d)" by blast
  show "br \<le> n \<and> (\<forall>d' n'. take br d' = take br d \<and> br \<le> n' \<and> n' \<le> length d' \<longrightarrow>
          Varint_decodeUInt32Safe d' n' = Inr (v, br))"
  proof (intro conjI allI impI)
    show "br \<le> n" using k by simp
  next
    fix d' n'
    assume a: "take br d' = take br d \<and> br \<le> n' \<and> n' \<le> length d'"
    have e: "\<And>i. i < br \<Longrightarrow> d' ! i = d ! i" using a nth_take_eq by blast
    have 1: "\<not> bit (d' ! k) 7" using e[of k] k by simp
    have 2: "\<forall>i<k. bit (d' ! i) 7" using e k by simp
    have 3: "k < n'" using a k by simp
    have "Varint_decodeUInt32Safe d' n' = Inr (varint_payload (take (k + 1) d'), k + 1)"
      by (rule decodeUInt32Safe_terminator) (use a k 1 2 3 in simp_all)
    then show "Varint_decodeUInt32Safe d' n' = Inr (v, br)" using a k by simp
  qed
qed

lemma reads_prefix_Int64: "reads_prefix Varint_decodeInt64Safe"
  unfolding reads_prefix_def
proof (intro allI impI, elim conjE)
  fix d n v br
  assume r: "Varint_decodeInt64Safe d n = Inr (v, br)" and n: "n \<le> length d"
  from decodeInt64Safe_Inr[OF r n] obtain k where k: "br = k + 1" "k < n" "k < 10"
    "\<not> bit (d ! k) 7" "\<forall>i<k. bit (d ! i) 7"
    "v = zigzag_decode (varint_payload (take (k + 1) d))" by blast
  show "br \<le> n \<and> (\<forall>d' n'. take br d' = take br d \<and> br \<le> n' \<and> n' \<le> length d' \<longrightarrow>
          Varint_decodeInt64Safe d' n' = Inr (v, br))"
  proof (intro conjI allI impI)
    show "br \<le> n" using k by simp
  next
    fix d' n'
    assume a: "take br d' = take br d \<and> br \<le> n' \<and> n' \<le> length d'"
    have e: "\<And>i. i < br \<Longrightarrow> d' ! i = d ! i" using a nth_take_eq by blast
    have 1: "\<not> bit (d' ! k) 7" using e[of k] k by simp
    have 2: "\<forall>i<k. bit (d' ! i) 7" using e k by simp
    have 3: "k < n'" using a k by simp
    have "Varint_decodeInt64Safe d' n'
          = Inr (zigzag_decode (varint_payload (take (k + 1) d')), k + 1)"
      by (rule decodeInt64Safe_terminator) (use a k 1 2 3 in simp_all)
    then show "Varint_decodeInt64Safe d' n' = Inr (v, br)" using a k by simp
  qed
qed

lemma reads_prefix_Int32: "reads_prefix Varint_decodeInt32Safe"
  unfolding reads_prefix_def
proof (intro allI impI, elim conjE)
  fix d n v br
  assume r: "Varint_decodeInt32Safe d n = Inr (v, br)" and n: "n \<le> length d"
  from r obtain u where u: "Varint_decodeUInt32Safe d n = Inr (u, br)" and v: "v = zigzag_decode u"
    by (auto simp: Varint_decodeInt32Safe_def split: sum.splits)
  from reads_prefix_UInt32 u n have p: "br \<le> n"
    and q: "\<And>d' n'. take br d' = take br d \<Longrightarrow> br \<le> n' \<Longrightarrow> n' \<le> length d' \<Longrightarrow>
              Varint_decodeUInt32Safe d' n' = Inr (u, br)"
    unfolding reads_prefix_def by blast+
  show "br \<le> n \<and> (\<forall>d' n'. take br d' = take br d \<and> br \<le> n' \<and> n' \<le> length d' \<longrightarrow>
          Varint_decodeInt32Safe d' n' = Inr (v, br))"
    using p q v by (simp add: Varint_decodeInt32Safe_def)
qed

lemma varint_errors_UInt32: "varint_errors Varint_decodeUInt32Safe"
  unfolding varint_errors_def
proof (intro allI impI, elim conjE)
  fix d n e
  assume r: "Varint_decodeUInt32Safe d n = Inl e" and n: "n \<le> length d"
  show "e = Truncated \<or> e = Overflow"
  proof (cases "\<exists>k. k < n \<and> k < 5 \<and> \<not> bit (d ! k) 7")
    case True
    then obtain k where k: "k < n \<and> k < 5 \<and> \<not> bit (d ! k) 7"
      and least: "\<forall>m<k. \<not> (m < n \<and> m < 5 \<and> \<not> bit (d ! m) 7)"
      using exists_least_iff[of "\<lambda>k. k < n \<and> k < 5 \<and> \<not> bit (d ! k) 7"] by blast
    have pre: "\<forall>i<k. bit (d ! i) 7" using k least by auto
    show ?thesis using decodeUInt32Safe_terminator[OF n] k pre r by auto
  next
    case False
    then have "\<forall>i. i < n \<and> i < 5 \<longrightarrow> bit (d ! i) 7" by blast
    from decodeUInt32Safe_no_terminator[OF n this] r
    show ?thesis by (simp split: if_splits)
  qed
qed

lemma varint_errors_Int64: "varint_errors Varint_decodeInt64Safe"
  unfolding varint_errors_def
proof (intro allI impI, elim conjE)
  fix d n e
  assume r: "Varint_decodeInt64Safe d n = Inl e" and n: "n \<le> length d"
  show "e = Truncated \<or> e = Overflow"
  proof (cases "\<exists>k. k < n \<and> k < 10 \<and> \<not> bit (d ! k) 7")
    case True
    then obtain k where k: "k < n \<and> k < 10 \<and> \<not> bit (d ! k) 7"
      and least: "\<forall>m<k. \<not> (m < n \<and> m < 10 \<and> \<not> bit (d ! m) 7)"
      using exists_least_iff[of "\<lambda>k. k < n \<and> k < 10 \<and> \<not> bit (d ! k) 7"] by blast
    have pre: "\<forall>i<k. bit (d ! i) 7" using k least by auto
    show ?thesis using decodeInt64Safe_terminator[OF n] k pre r by auto
  next
    case False
    then have "\<forall>i. i < n \<and> i < 10 \<longrightarrow> bit (d ! i) 7" by blast
    from decodeInt64Safe_no_terminator[OF n this] r
    show ?thesis by (simp split: if_splits)
  qed
qed

lemma varint_errors_Int32: "varint_errors Varint_decodeInt32Safe"
  using varint_errors_UInt32
  unfolding varint_errors_def Varint_decodeInt32Safe_def
  by (auto split: sum.splits)



lemma reads_prefixD:
  assumes "reads_prefix dec" "dec d n = Inr (v, br)" "n \<le> length d"
  shows "br \<le> n"
    and "take br d' = take br d \<Longrightarrow> br \<le> n' \<Longrightarrow> n' \<le> length d' \<Longrightarrow> dec d' n' = Inr (v, br)"
  using assms unfolding reads_prefix_def by blast+


lemma varint_errorsD:
  assumes "varint_errors dec" "dec d n = Inl e" "n \<le> length d"
  shows "e = Truncated \<or> e = Overflow"
  using assms unfolding varint_errors_def by blast

lemma rle_read_runs_errors:
  assumes "reads_prefix dec" "varint_errors dec" "rle_read_runs dec k data sz pos = Inl e"
    "pos \<le> sz" "sz \<le> length data"
  shows "e = Truncated \<or> e = Overflow"
  using assms(3,4)
proof (induction k arbitrary: pos)
  case 0
  then show ?case by simp
next
  case (Suc k)
  have s1: "size_t_sub sz pos = sz - pos" using Suc.prems(2) by simp
  show ?case
  proof (cases "Varint_decodeUInt32Safe (drop pos data) (size_t_sub sz pos)")
    case (Inl e')
    then have "e' = e" using Suc.prems(1) by simp
    then show ?thesis
      using varint_errorsD[OF varint_errors_UInt32 Inl] assms(5) s1 by simp
  next
    case (Inr x)
    obtain rl br where x: "x = (rl, br)" by (cases x)
    note 1 = Inr[unfolded x]
    have b1: "br \<le> sz - pos"
      using reads_prefixD(1)[OF reads_prefix_UInt32 1] assms(5) s1 by simp
    then have le1: "pos + br \<le> sz" using Suc.prems(2) by simp
    have s2: "size_t_sub sz (pos + br) = sz - (pos + br)" using le1 by simp
    show ?thesis
    proof (cases "dec (drop (pos + br) data) (size_t_sub sz (pos + br))")
      case (Inl e')
      then have "e' = e" using Suc.prems(1) 1 by simp
      then show ?thesis
        using varint_errorsD[OF assms(2) Inl] assms(5) s2 by simp
    next
      case (Inr y)
      obtain v br' where y: "y = (v, br')" by (cases y)
      note 2 = Inr[unfolded y]
      have b2: "br' \<le> sz - (pos + br)"
        using reads_prefixD(1)[OF assms(1) 2] assms(5) s2 by simp
      then have le2: "pos + br + br' \<le> sz" using le1 by simp
      have "rle_read_runs dec k data sz (pos + br + br') = Inl e"
        using Suc.prems(1) 1 2 by (simp split: sum.splits prod.splits)
      from Suc.IH[OF this le2] show ?thesis .
    qed
  qed
qed


subsection \<open>Decoding the layout of a list of runs\<close>

lemma rle_read_runs_layout:
  assumes enc: "\<And>v rest n. length (enc v) \<le> n \<Longrightarrow> dec (enc v @ rest) n = Inr (v, length (enc v))"
    and sz: "length pre + length (concat (map (\<lambda>(rl, v). Varint_encodeUInt32 rl @ enc v) runs)) \<le> sz"
  shows "rle_read_runs dec (length runs)
           (pre @ concat (map (\<lambda>(rl, v). Varint_encodeUInt32 rl @ enc v) runs) @ extra) sz (length pre)
         = Inr (runs, length pre + length (concat (map (\<lambda>(rl, v). Varint_encodeUInt32 rl @ enc v) runs)))"
  using sz
proof (induction runs arbitrary: pre)
  case Nil
  then show ?case by simp
next
  case (Cons r runs)
  obtain rl v where r: "r = (rl, v)" by (cases r)
  let ?tail = "concat (map (\<lambda>(rl, v). Varint_encodeUInt32 rl @ enc v) runs)"
  let ?data = "pre @ (Varint_encodeUInt32 rl @ enc v @ ?tail) @ extra"
  have le: "length pre + length (Varint_encodeUInt32 rl) + length (enc v) + length ?tail \<le> sz"
    using Cons.prems r by simp
  have s1: "size_t_sub sz (length pre) = sz - length pre" using le by simp
  have s2: "size_t_sub sz (length pre + length (Varint_encodeUInt32 rl))
            = sz - (length pre + length (Varint_encodeUInt32 rl))" using le by simp
  have d1: "Varint_decodeUInt32Safe (drop (length pre) ?data) (size_t_sub sz (length pre))
            = Inr (rl, length (Varint_encodeUInt32 rl))"
    using decodeUInt32Safe_encode[of rl "sz - length pre" "enc v @ ?tail @ extra"] le s1
    by simp
  have d2: "dec (drop (length pre + length (Varint_encodeUInt32 rl)) ?data)
              (size_t_sub sz (length pre + length (Varint_encodeUInt32 rl)))
            = Inr (v, length (enc v))"
    using enc[of v "sz - (length pre + length (Varint_encodeUInt32 rl))" "?tail @ extra"] le s2
    by simp
  have IH: "rle_read_runs dec (length runs)
              ((pre @ Varint_encodeUInt32 rl @ enc v) @ ?tail @ extra) sz
              (length (pre @ Varint_encodeUInt32 rl @ enc v))
            = Inr (runs, length (pre @ Varint_encodeUInt32 rl @ enc v) + length ?tail)"
    by (rule Cons.IH) (use le in simp)
  show ?case using d1 d2 IH by (simp add: r add.assoc)
qed

lemma unat_of_nat_len32: "n < 2 ^ 32 \<Longrightarrow> unat (of_nat n :: 32 word) = n"
  by (simp add: unat_of_nat take_bit_nat_eq_self)

lemma RLE_read_runs32_emit:
  assumes "length runs < 2 ^ 32" "length (rle_emit32 runs) \<le> sz"
  shows "RLE_read_runs32 (rle_emit32 runs @ extra) sz = Inr (runs, length (rle_emit32 runs))"
proof -
  let ?hd = "Varint_encodeUInt32 (of_nat (length runs))"
  let ?body = "concat (map (\<lambda>(rl, v). Varint_encodeUInt32 rl @ Varint_encodeInt32 v) runs)"
  have e: "rle_emit32 runs = ?hd @ ?body" by (simp add: rle_emit32_def)
  have d0: "Varint_decodeUInt32Safe (?hd @ ?body @ extra) sz = Inr (of_nat (length runs), length ?hd)"
    using decodeUInt32Safe_encode[of "of_nat (length runs)" sz "?body @ extra"] assms(2) e by simp
  have loop: "rle_read_runs Varint_decodeInt32Safe (length runs) (?hd @ ?body @ extra) sz (length ?hd)
              = Inr (runs, length ?hd + length ?body)"
    by (rule rle_read_runs_layout) (use decodeInt32Safe_encode assms(2) e in simp_all)
  show ?thesis
    using d0 loop assms(1) by (simp add: RLE_read_runs32_def e unat_of_nat_len32)
qed

lemma RLE_read_runs64_emit:
  assumes "length runs < 2 ^ 32" "length (rle_emit64 runs) \<le> sz"
  shows "RLE_read_runs64 (rle_emit64 runs @ extra) sz = Inr (runs, length (rle_emit64 runs))"
proof -
  let ?hd = "Varint_encodeUInt32 (of_nat (length runs))"
  let ?body = "concat (map (\<lambda>(rl, v). Varint_encodeUInt32 rl @ Varint_encodeInt64 v) runs)"
  have e: "rle_emit64 runs = ?hd @ ?body" by (simp add: rle_emit64_def)
  have d0: "Varint_decodeUInt32Safe (?hd @ ?body @ extra) sz = Inr (of_nat (length runs), length ?hd)"
    using decodeUInt32Safe_encode[of "of_nat (length runs)" sz "?body @ extra"] assms(2) e by simp
  have loop: "rle_read_runs Varint_decodeInt64Safe (length runs) (?hd @ ?body @ extra) sz (length ?hd)
              = Inr (runs, length ?hd + length ?body)"
    by (rule rle_read_runs_layout) (use decodeInt64Safe_encode assms(2) e in simp_all)
  show ?thesis
    using d0 loop assms(1) by (simp add: RLE_read_runs64_def e unat_of_nat_len32)
qed


lemma rle_expand_zero_run: "rle_expand (xs @ (0, v) # ys) = rle_expand (xs @ ys)"
  by (simp add: rle_expand_def)





subsection \<open>The run loop of the RLE decoders\<close>

lemma rle_expand_Cons: "rle_expand ((rl, v) # runs) = replicate (unat rl) v @ rle_expand runs"
  by (simp add: rle_expand_def)

lemma rle_expand_Nil: "rle_expand [] = []"
  by (simp add: rle_expand_def)

lemma push_back_run_eq:
  assumes "length acc \<le> cap"
  shows "push_back_run cap j v acc =
           (if length acc + j \<le> cap then Inr (acc @ replicate j v) else Inl AllocFailed)"
  using assms
proof (induction j arbitrary: acc)
  case 0
  then show ?case by simp
next
  case (Suc j)
  show ?case
  proof (cases "length acc < cap")
    case True
    then have "length (acc @ [v]) \<le> cap" by simp
    from Suc.IH[OF this] True show ?thesis by simp
  next
    case False
    then show ?thesis using Suc.prems by simp
  qed
qed

lemma RLE_decodeInt32_runs_read:
  assumes "rle_read_runs Varint_decodeInt32Safe k data sz pos = Inr (runs, p)" "length acc \<le> cap"
  shows "RLE_decodeInt32_runs cap k data sz pos acc =
           (if length acc + length (rle_expand runs) \<le> cap then Inr (acc @ rle_expand runs)
            else Inl AllocFailed)"
  using assms
proof (induction k arbitrary: pos acc runs)
  case 0
  then show ?case by (simp add: rle_expand_Nil)
next
  case (Suc k)
  from Suc.prems(1) obtain rl br v br' runs' where
    a: "Varint_decodeUInt32Safe (drop pos data) (size_t_sub sz pos) = Inr (rl, br)"
    and b: "Varint_decodeInt32Safe (drop (pos + br) data) (size_t_sub sz (pos + br)) = Inr (v, br')"
    and c: "rle_read_runs Varint_decodeInt32Safe k data sz (pos + br + br') = Inr (runs', p)"
    and r: "runs = (rl, v) # runs'"
    by (auto split: sum.splits prod.splits)
  show ?case
  proof (cases "length acc + unat rl \<le> cap")
    case True
    have l: "length (acc @ replicate (unat rl) v) \<le> cap" using True by simp
    show ?thesis using Suc.IH[OF c l] a b True Suc.prems(2)
      by (simp add: push_back_run_eq r rle_expand_Cons add.assoc)
  next
    case False
    then show ?thesis using a b Suc.prems(2)
      by (simp add: push_back_run_eq r rle_expand_Cons)
  qed
qed

lemma RLE_decodeInt32_runs_read_error:
  assumes "rle_read_runs Varint_decodeInt32Safe k data sz pos = Inl e" "length acc \<le> cap"
  shows "RLE_decodeInt32_runs cap k data sz pos acc = Inl e \<or>
         RLE_decodeInt32_runs cap k data sz pos acc = Inl AllocFailed"
  using assms
proof (induction k arbitrary: pos acc)
  case 0
  then show ?case by simp
next
  case (Suc k)
  show ?case
  proof (cases "Varint_decodeUInt32Safe (drop pos data) (size_t_sub sz pos)")
    case (Inl e')
    then show ?thesis using Suc.prems(1) by simp
  next
    case (Inr x)
    obtain rl br where x: "x = (rl, br)" by (cases x)
    note a = Inr[unfolded x]
    show ?thesis
    proof (cases "Varint_decodeInt32Safe (drop (pos + br) data) (size_t_sub sz (pos + br))")
      case (Inl e')
      then show ?thesis using Suc.prems(1) a by simp
    next
      case (Inr y)
      obtain v br' where y: "y = (v, br')" by (cases y)
      note b = Inr[unfolded y]
      have c: "rle_read_runs Varint_decodeInt32Safe k data sz (pos + br + br') = Inl e"
        using Suc.prems(1) a b by (simp split: sum.splits prod.splits)
      show ?thesis
      proof (cases "length acc + unat rl \<le> cap")
        case True
        have l: "length (acc @ replicate (unat rl) v) \<le> cap" using True by simp
        show ?thesis using Suc.IH[OF c l] a b True Suc.prems(2)
          by (simp add: push_back_run_eq)
      next
        case False
        then show ?thesis using a b Suc.prems(2) by (simp add: push_back_run_eq)
      qed
    qed
  qed
qed

lemma RLE_decodeInt32_read:
  assumes "RLE_read_runs32 data sz = Inr (runs, p)"
  shows "RLE_decodeInt32 cap data sz n =
           (if n \<le> cap \<and> length (rle_expand runs) \<le> cap then Inr (rle_expand runs)
            else Inl AllocFailed)"
proof -
  from assms obtain k br where a: "Varint_decodeUInt32Safe data sz = Inr (k, br)"
    and b: "rle_read_runs Varint_decodeInt32Safe (unat k) data sz br = Inr (runs, p)"
    by (auto simp: RLE_read_runs32_def split: sum.splits prod.splits)
  show ?thesis
    using RLE_decodeInt32_runs_read[OF b, of "[]" cap] a
    by (simp add: RLE_decodeInt32_def)
qed

lemma RLE_decodeInt32_read_error:
  assumes "RLE_read_runs32 data sz = Inl e"
  shows "RLE_decodeInt32 cap data sz n = Inl e \<or> RLE_decodeInt32 cap data sz n = Inl AllocFailed"
proof (cases "Varint_decodeUInt32Safe data sz")
  case (Inl e')
  then show ?thesis using assms by (simp add: RLE_decodeInt32_def RLE_read_runs32_def)
next
  case (Inr x)
  obtain k br where x: "x = (k, br)" by (cases x)
  note a = Inr[unfolded x]
  have b: "rle_read_runs Varint_decodeInt32Safe (unat k) data sz br = Inl e"
    using assms a by (simp add: RLE_read_runs32_def)
  show ?thesis
    using RLE_decodeInt32_runs_read_error[OF b, of "[]" cap] a
    by (simp add: RLE_decodeInt32_def)
qed

lemma RLE_read_runs32_errors:
  assumes "RLE_read_runs32 data sz = Inl e" "sz \<le> length data"
  shows "e = Truncated \<or> e = Overflow"
proof (cases "Varint_decodeUInt32Safe data sz")
  case (Inl e')
  then have "e' = e" using assms(1) by (simp add: RLE_read_runs32_def)
  then show ?thesis using varint_errorsD[OF varint_errors_UInt32 Inl assms(2)] by simp
next
  case (Inr x)
  obtain k br where x: "x = (k, br)" by (cases x)
  note 1 = Inr[unfolded x]
  have br: "br \<le> sz" using reads_prefixD(1)[OF reads_prefix_UInt32 1 assms(2)] .
  have "rle_read_runs Varint_decodeInt32Safe (unat k) data sz br = Inl e"
    using assms(1) 1 by (simp add: RLE_read_runs32_def)
  from rle_read_runs_errors[OF reads_prefix_Int32 varint_errors_Int32 this br assms(2)]
  show ?thesis .
qed

lemma RLE_decodeInt32_emit:
  assumes "length runs < 2 ^ 32" "length (rle_emit32 runs) \<le> sz"
  shows "RLE_decodeInt32 cap (rle_emit32 runs @ extra) sz n =
           (if n \<le> cap \<and> length (rle_expand runs) \<le> cap then Inr (rle_expand runs)
            else Inl AllocFailed)"
  by (rule RLE_decodeInt32_read[OF RLE_read_runs32_emit[OF assms]])

lemma RLE_decodeInt32_errors:
  assumes "RLE_decodeInt32 cap data sz n = Inl e" "sz \<le> length data"
  shows "e = Truncated \<or> e = Overflow \<or> e = AllocFailed"
proof (cases "RLE_read_runs32 data sz")
  case (Inl e')
  from RLE_decodeInt32_read_error[OF Inl, of cap n] assms(1)
    RLE_read_runs32_errors[OF Inl assms(2)]
  show ?thesis by auto
next
  case (Inr x)
  obtain runs p where x: "x = (runs, p)" by (cases x)
  from RLE_decodeInt32_read[OF Inr[unfolded x], of cap n] assms(1)
  show ?thesis by (simp split: if_splits)
qed


lemma RLE_decodeInt64_runs_read:
  assumes "rle_read_runs Varint_decodeInt64Safe k data sz pos = Inr (runs, p)" "length acc \<le> cap"
  shows "RLE_decodeInt64_runs cap k data sz pos acc =
           (if length acc + length (rle_expand runs) \<le> cap then Inr (acc @ rle_expand runs)
            else Inl AllocFailed)"
  using assms
proof (induction k arbitrary: pos acc runs)
  case 0
  then show ?case by (simp add: rle_expand_Nil)
next
  case (Suc k)
  from Suc.prems(1) obtain rl br v br' runs' where
    a: "Varint_decodeUInt32Safe (drop pos data) (size_t_sub sz pos) = Inr (rl, br)"
    and b: "Varint_decodeInt64Safe (drop (pos + br) data) (size_t_sub sz (pos + br)) = Inr (v, br')"
    and c: "rle_read_runs Varint_decodeInt64Safe k data sz (pos + br + br') = Inr (runs', p)"
    and r: "runs = (rl, v) # runs'"
    by (auto split: sum.splits prod.splits)
  show ?case
  proof (cases "length acc + unat rl \<le> cap")
    case True
    have l: "length (acc @ replicate (unat rl) v) \<le> cap" using True by simp
    show ?thesis using Suc.IH[OF c l] a b True Suc.prems(2)
      by (simp add: push_back_run_eq r rle_expand_Cons add.assoc)
  next
    case False
    then show ?thesis using a b Suc.prems(2)
      by (simp add: push_back_run_eq r rle_expand_Cons)
  qed
qed

lemma RLE_decodeInt64_runs_read_error:
  assumes "rle_read_runs Varint_decodeInt64Safe k data sz pos = Inl e" "length acc \<le> cap"
  shows "RLE_decodeInt64_runs cap k data sz pos acc = Inl e \<or>
         RLE_decodeInt64_runs cap k data sz pos acc = Inl AllocFailed"
  using assms
proof (induction k arbitrary: pos acc)
  case 0
  then show ?case by simp
next
  case (Suc k)
  show ?case
  proof (cases "Varint_decodeUInt32Safe (drop pos data) (size_t_sub sz pos)")
    case (Inl e')
    then show ?thesis using Suc.prems(1) by simp
  next
    case (Inr x)
    obtain rl br where x: "x = (rl, br)" by (cases x)
    note a = Inr[unfolded x]
    show ?thesis
    proof (cases "Varint_decodeInt64Safe (drop (pos + br) data) (size_t_sub sz (pos + br))")
      case (Inl e')
      then show ?thesis using Suc.prems(1) a by simp
    next
      case (Inr y)
      obtain v br' where y: "y = (v, br')" by (cases y)
      note b = Inr[unfolded y]
      have c: "rle_read_runs Varint_decodeInt64Safe k data sz (pos + br + br') = Inl e"
        using Suc.prems(1) a b by (simp split: sum.splits prod.splits)
      show ?thesis
      proof (cases "length acc + unat rl \<le> cap")
        case True
        have l: "length (acc @ replicate (unat rl) v) \<le> cap" using True by simp
        show ?thesis using Suc.IH[OF c l] a b True Suc.prems(2)
          by (simp add: push_back_run_eq)
      next
        case False
        then show ?thesis using a b Suc.prems(2) by (simp add: push_back_run_eq)
      qed
    qed
  qed
qed

lemma RLE_decodeInt64_read:
  assumes "RLE_read_runs64 data sz = Inr (runs, p)"
  shows "RLE_decodeInt64 cap data sz n =
           (if n \<le> cap \<and> length (rle_expand runs) \<le> cap then Inr (rle_expand runs)
            else Inl AllocFailed)"
proof -
  from assms obtain k br where a: "Varint_decodeUInt32Safe data sz = Inr (k, br)"
    and b: "rle_read_runs Varint_decodeInt64Safe (unat k) data sz br = Inr (runs, p)"
    by (auto simp: RLE_read_runs64_def split: sum.splits prod.splits)
  show ?thesis
    using RLE_decodeInt64_runs_read[OF b, of "[]" cap] a
    by (simp add: RLE_decodeInt64_def)
qed

lemma RLE_decodeInt64_read_error:
  assumes "RLE_read_runs64 data sz = Inl e"
  shows "RLE_decodeInt64 cap data sz n = Inl e \<or> RLE_decodeInt64 cap data sz n = Inl AllocFailed"
proof (cases "Varint_decodeUInt32Safe data sz")
  case (Inl e')
  then show ?thesis using assms by (simp add: RLE_decodeInt64_def RLE_read_runs64_def)
next
  case (Inr x)
  obtain k br where x: "x = (k, br)" by (cases x)
  note a = Inr[unfolded x]
  have b: "rle_read_runs Varint_decodeInt64Safe (unat k) data sz br = Inl e"
    using assms a by (simp add: RLE_read_runs64_def)
  show ?thesis
    using RLE_decodeInt64_runs_read_error[OF b, of "[]" cap] a
    by (simp add: RLE_decodeInt64_def)
qed

lemma RLE_read_runs64_errors:
  assumes "RLE_read_runs64 data sz = Inl e" "sz \<le> length data"
  shows "e = Truncated \<or> e = Overflow"
proof (cases "Varint_decodeUInt32Safe data sz")
  case (Inl e')
  then have "e' = e" using assms(1) by (simp add: RLE_read_runs64_def)
  then show ?thesis using varint_errorsD[OF varint_errors_UInt32 Inl assms(2)] by simp
next
  case (Inr x)
  obtain k br where x: "x = (k, br)" by (cases x)
  note 1 = Inr[unfolded x]
  have br: "br \<le> sz" using reads_prefixD(1)[OF reads_prefix_UInt32 1 assms(2)] .
  have "rle_read_runs Varint_decodeInt64Safe (unat k) data sz br = Inl e"
    using assms(1) 1 by (simp add: RLE_read_runs64_def)
  from rle_read_runs_errors[OF reads_prefix_Int64 varint_errors_Int64 this br assms(2)]
  show ?thesis .
qed

lemma RLE_decodeInt64_emit:
  assumes "length runs < 2 ^ 32" "length (rle_emit64 runs) \<le> sz"
  shows "RLE_decodeInt64 cap (rle_emit64 runs @ extra) sz n =
           (if n \<le> cap \<and> length (rle_expand runs) \<le> cap then Inr (rle_expand runs)
            else Inl AllocFailed)"
  by (rule RLE_decodeInt64_read[OF RLE_read_runs64_emit[OF assms]])

lemma RLE_decodeInt64_errors:
  assumes "RLE_decodeInt64 cap data sz n = Inl e" "sz \<le> length data"
  shows "e = Truncated \<or> e = Overflow \<or> e = AllocFailed"
proof (cases "RLE_read_runs64 data sz")
  case (Inl e')
  from RLE_decodeInt64_read_error[OF Inl, of cap n] assms(1)
    RLE_read_runs64_errors[OF Inl assms(2)]
  show ?thesis by auto
next
  case (Inr x)
  obtain runs p where x: "x = (runs, p)" by (cases x)
  from RLE_decodeInt64_read[OF Inr[unfolded x], of cap n] assms(1)
  show ?thesis by (simp split: if_splits)
qed



text \<open>
  Claim C7 says that a buffer with a run of length 0 makes \<open>decodeInt32\<close> and \<open>decodeInt64\<close>
  fail with an \<open>InvalidRun\<close> error. The decoders have no such check: the buffer \<open>01 00 0E\<close>
  (one run, of length 0, of the value 7) decodes to the empty vector without an error,
  whatever the vector can hold.
\<close>

theorem C7_zero_run_counterexample:
  "\<forall>cap. RLE_decodeInt32 cap [0x01, 0x00, 0x0E] 3 0 = Inr [] \<and>
         RLE_decodeInt64 cap [0x01, 0x00, 0x0E] 3 0 = Inr []"
proof -
  have a: "RLE_read_runs32 [0x01, 0x00, 0x0E] 3 = Inr ([(0, 7)], 3)" by code_simp
  have b: "RLE_read_runs64 [0x01, 0x00, 0x0E] 3 = Inr ([(0, 7)], 3)" by code_simp
  show ?thesis
    using RLE_decodeInt32_read[OF a, of _ 0] RLE_decodeInt64_read[OF b, of _ 0]
    by (simp add: rle_expand_def)
qed

text \<open>
  Claim C7, amended. A run of length 0 is accepted and contributes no value. Take the layout
  of any list of fewer than \<open>2^32\<close> runs in which a run of length 0 stands anywhere, followed
  by any bytes: when the result vector can hold \<open>num_values\<close> elements and the values of the
  other runs, the decoders return these values, \<open>run_length\<close> copies of each, and the
  zero-length run leaves no trace; when it cannot, the vector throws. Within the buffer the
  decoders fail only with \<open>Truncated\<close> or \<open>Overflow\<close>, the errors of the varint reads, or with
  the exception of the vector: no error is raised for a run.
\<close>

theorem C7_zero_length_runs_accepted:
  "(length (xs @ (0, v) # ys) < 2 ^ 32 \<longrightarrow>
      RLE_decodeInt32 cap (rle_emit32 (xs @ (0, v) # ys) @ extra)
          (length (rle_emit32 (xs @ (0, v) # ys) @ extra)) n
        = (if n \<le> cap \<and> length (rle_expand (xs @ ys)) \<le> cap then Inr (rle_expand (xs @ ys))
           else Inl AllocFailed)) \<and>
   (length (xs' @ (0, v') # ys') < 2 ^ 32 \<longrightarrow>
      RLE_decodeInt64 cap (rle_emit64 (xs' @ (0, v') # ys') @ extra)
          (length (rle_emit64 (xs' @ (0, v') # ys') @ extra)) n
        = (if n \<le> cap \<and> length (rle_expand (xs' @ ys')) \<le> cap then Inr (rle_expand (xs' @ ys'))
           else Inl AllocFailed)) \<and>
   (sz \<le> length data \<and> RLE_decodeInt32 cap data sz n = Inl e \<longrightarrow>
      e = Truncated \<or> e = Overflow \<or> e = AllocFailed) \<and>
   (sz \<le> length data \<and> RLE_decodeInt64 cap data sz n = Inl e \<longrightarrow>
      e = Truncated \<or> e = Overflow \<or> e = AllocFailed)"
proof -
  have 1: "length (xs @ (0, v) # ys) < 2 ^ 32 \<longrightarrow>
      RLE_decodeInt32 cap (rle_emit32 (xs @ (0, v) # ys) @ extra)
          (length (rle_emit32 (xs @ (0, v) # ys) @ extra)) n
        = (if n \<le> cap \<and> length (rle_expand (xs @ ys)) \<le> cap then Inr (rle_expand (xs @ ys))
           else Inl AllocFailed)"
    using RLE_decodeInt32_emit[of "xs @ (0, v) # ys"
        "length (rle_emit32 (xs @ (0, v) # ys) @ extra)" cap extra n]
    unfolding rle_expand_zero_run by simp
  have 2: "length (xs' @ (0, v') # ys') < 2 ^ 32 \<longrightarrow>
      RLE_decodeInt64 cap (rle_emit64 (xs' @ (0, v') # ys') @ extra)
          (length (rle_emit64 (xs' @ (0, v') # ys') @ extra)) n
        = (if n \<le> cap \<and> length (rle_expand (xs' @ ys')) \<le> cap then Inr (rle_expand (xs' @ ys'))
           else Inl AllocFailed)"
    using RLE_decodeInt64_emit[of "xs' @ (0, v') # ys'"
        "length (rle_emit64 (xs' @ (0, v') # ys') @ extra)" cap extra n]
    unfolding rle_expand_zero_run by simp
  show ?thesis
    using 1 2 RLE_decodeInt32_errors[of cap data sz n e] RLE_decodeInt64_errors[of cap data sz n e]
    by blast
qed

theorem C7_zero_length_runs_accepted_witness:
  "RLE_decodeInt32 4 [0x03, 0x01, 0x12, 0x00, 0x0E, 0x02, 0x0A, 0xFF] 8 2 = Inr [9, 5, 5] \<and>
   RLE_decodeInt64 4 [0x03, 0x01, 0x12, 0x00, 0x0E, 0x02, 0x0A, 0xFF] 8 2 = Inr [9, 5, 5] \<and>
   RLE_decodeInt32 2 [0x03, 0x01, 0x12, 0x00, 0x0E, 0x02, 0x0A, 0xFF] 8 2 = Inl AllocFailed \<and>
   RLE_decodeInt32 4 [0x02, 0x00, 0x0E] 3 0 = Inl Truncated"
proof -
  note t = C7_zero_length_runs_accepted[of "[(1, 9)]" 7 "[(2, 5)]" 4 "[0xFF]" 2
      "[(1, 9)]" 7 "[(2, 5)]" 3 "[0x02, 0x00, 0x0E]" Truncated]
  note u = C7_zero_length_runs_accepted[of "[(1, 9)]" 7 "[(2, 5)]" 2 "[0xFF]" 2
      "[(1, 9)]" 7 "[(2, 5)]" 3 "[0x02, 0x00, 0x0E]" Truncated]
  have l: "length ([(1 :: 32 word, 9 :: 32 word)] @ (0, 7) # [(2, 5)]) < 2 ^ 32"
    "length ([(1 :: 32 word, 9 :: 64 word)] @ (0, 7) # [(2, 5)]) < 2 ^ 32" by simp_all
  have m: "rle_emit32 ([(1, 9)] @ (0, 7) # [(2, 5)]) @ [0xFF]
             = [0x03, 0x01, 0x12, 0x00, 0x0E, 0x02, 0x0A, 0xFF]"
    "rle_emit64 ([(1, 9)] @ (0, 7) # [(2, 5)]) @ [0xFF]
             = [0x03, 0x01, 0x12, 0x00, 0x0E, 0x02, 0x0A, 0xFF]"
    by code_simp+
  have e: "rle_expand ([(1 :: 32 word, 9 :: 32 word)] @ [(2, 5)]) = [9, 5, 5]"
    "rle_expand ([(1 :: 32 word, 9 :: 64 word)] @ [(2, 5)]) = [9, 5, 5]"
    by code_simp+
  have n8: "length [0x03, 0x01, 0x12, 0x00, 0x0E, 0x02, 0x0A, 0xFF :: byte] = 8" by simp
  have a: "RLE_decodeInt32 4 [0x03, 0x01, 0x12, 0x00, 0x0E, 0x02, 0x0A, 0xFF] 8 2 = Inr [9, 5, 5]"
    using mp[OF conjunct1[OF t] l(1)] unfolding m e n8 by simp
  have b: "RLE_decodeInt64 4 [0x03, 0x01, 0x12, 0x00, 0x0E, 0x02, 0x0A, 0xFF] 8 2 = Inr [9, 5, 5]"
    using mp[OF conjunct1[OF conjunct2[OF t]] l(2)] unfolding m e n8 by simp
  have c: "RLE_decodeInt32 2 [0x03, 0x01, 0x12, 0x00, 0x0E, 0x02, 0x0A, 0xFF] 8 2 = Inl AllocFailed"
    using mp[OF conjunct1[OF u] l(1)] unfolding m e n8 by simp
  have d: "RLE_decodeInt32 4 [0x02, 0x00, 0x0E] 3 0 = Inl Truncated" by code_simp
  show ?thesis using a b c d by (intro conjI)
qed





section \<open>Properties of the RLE encoders\<close>

subsection \<open>The run collection of the RLE encoders\<close>

lemma unat_plus1_32:
  fixes rl :: "32 word"
  assumes "unat rl + 1 < 2 ^ 32"
  shows "unat (rl + 1) = unat rl + 1"
  using assms by (simp add: unat_word_ariths)

lemma rle_run_length_scan:
  assumes "\<forall>i n. i + n \<le> length V \<and> (\<forall>k<n. V ! (i + k) = V ! i) \<longrightarrow> n < 2 ^ 32"
    "i + unat rl \<le> length V" "\<forall>k < unat rl. V ! (i + k) = V ! i"
  shows "\<exists>rl'. rle_run_length V i rl = Some rl' \<and> unat rl \<le> unat rl' \<and> i + unat rl' \<le> length V \<and>
           (\<forall>k < unat rl'. V ! (i + k) = V ! i) \<and>
           (i + unat rl' < length V \<longrightarrow> V ! (i + unat rl') \<noteq> V ! i)"
  using assms(2,3)
proof (induction "length V - (i + unat rl)" arbitrary: rl)
  case 0
  then have "\<not> i + unat rl < length V" by simp
  then have "rle_run_length V i rl = Some rl" by (subst rle_run_length.simps) simp
  then show ?case using 0 by auto
next
  case (Suc d)
  show ?case
  proof (cases "V ! (i + unat rl) = V ! i")
    case False
    then have "rle_run_length V i rl = Some rl" by (subst rle_run_length.simps) simp
    then show ?thesis using Suc.prems False by auto
  next
    case True
    have lt: "i + unat rl < length V" using Suc.hyps(2) by simp
    have "\<forall>k < unat rl + 1. V ! (i + k) = V ! i"
      using Suc.prems(2) True by (auto simp: less_Suc_eq)
    then have "unat rl + 1 < 2 ^ 32"
      using assms(1)[rule_format, of i "unat rl + 1"] lt by simp
    then have u: "unat (rl + 1) = unat rl + 1"
      by (rule unat_plus1_32)
    have step: "rle_run_length V i rl = rle_run_length V i (rl + 1)"
      using lt True by (subst rle_run_length.simps) simp
    have a: "d = length V - (i + unat (rl + 1))" using Suc.hyps(2) u by simp
    have b: "i + unat (rl + 1) \<le> length V" using lt u by simp
    have c: "\<forall>k < unat (rl + 1). V ! (i + k) = V ! i"
      using Suc.prems(2) True u by (auto simp: less_Suc_eq)
    from Suc.hyps(1)[OF a b c] step u show ?thesis by auto
  qed
qed

lemma take_drop_replicate:
  assumes "i + n \<le> length V" "\<forall>k<n. V ! (i + k) = x"
  shows "take n (drop i V) = replicate n x"
  using assms by (intro nth_equalityI) auto

lemma rle_runs_spec:
  assumes "\<forall>i n. i + n \<le> length V \<and> (\<forall>k<n. V ! (i + k) = V ! i) \<longrightarrow> n < 2 ^ 32"
    "i \<le> length V"
  shows "\<exists>runs. rle_runs V i acc = Some (acc @ runs) \<and> rle_expand runs = drop i V \<and>
           (\<forall>r \<in> set runs. fst r \<noteq> 0) \<and> distinct_adj (map snd runs) \<and>
           (i < length V \<longrightarrow> runs \<noteq> [] \<and> snd (hd runs) = V ! i) \<and>
           length runs \<le> length V - i"
  using assms(2)
proof (induction "length V - i" arbitrary: i acc rule: less_induct)
  case less
  show ?case
  proof (cases "i < length V")
    case False
    then have "rle_runs V i acc = Some acc" by (subst rle_runs.simps) simp
    then show ?thesis using False less.prems by (simp add: rle_expand_Nil)
  next
    case True
    have "\<exists>rl'. rle_run_length V i 1 = Some rl' \<and> unat (1 :: 32 word) \<le> unat rl' \<and>
            i + unat rl' \<le> length V \<and> (\<forall>k < unat rl'. V ! (i + k) = V ! i) \<and>
            (i + unat rl' < length V \<longrightarrow> V ! (i + unat rl') \<noteq> V ! i)"
      by (rule rle_run_length_scan[OF assms(1)]) (use True in simp_all)
    then obtain rl' where rl: "rle_run_length V i 1 = Some rl'" "1 \<le> unat rl'"
      "i + unat rl' \<le> length V" "\<forall>k < unat rl'. V ! (i + k) = V ! i"
      "i + unat rl' < length V \<longrightarrow> V ! (i + unat rl') \<noteq> V ! i"
      by auto
    have dec: "length V - (i + unat rl') < length V - i" using rl(2) True by simp
    from less.hyps[OF dec rl(3), of "acc @ [(rl', V ! i)]"]
    obtain runs' where IH: "rle_runs V (i + unat rl') (acc @ [(rl', V ! i)])
                            = Some ((acc @ [(rl', V ! i)]) @ runs')"
      "rle_expand runs' = drop (i + unat rl') V" "\<forall>r \<in> set runs'. fst r \<noteq> 0"
      "distinct_adj (map snd runs')"
      "i + unat rl' < length V \<longrightarrow> runs' \<noteq> [] \<and> snd (hd runs') = V ! (i + unat rl')"
      "length runs' \<le> length V - (i + unat rl')"
      by blast
    have empty: "\<not> i + unat rl' < length V \<Longrightarrow> runs' = []"
      using IH(6) by simp
    let ?runs = "(rl', V ! i) # runs'"
    have 1: "rle_runs V i acc = Some (acc @ ?runs)"
      using True rl(1) IH(1) by (subst rle_runs.simps) simp
    have "drop i V = take (unat rl') (drop i V) @ drop (i + unat rl') V"
      by (metis add.commute append_take_drop_id drop_drop)
    then have 2: "rle_expand ?runs = drop i V"
      using take_drop_replicate[OF rl(3), of "V ! i"] rl(4) IH(2)
      by (simp add: rle_expand_Cons)
    have nz: "rl' \<noteq> 0" using rl(2) by auto
    have 3: "\<forall>r \<in> set ?runs. fst r \<noteq> 0" using nz IH(3) by simp
    have 4: "distinct_adj (map snd ?runs)"
    proof (cases "i + unat rl' < length V")
      case True
      then have "runs' \<noteq> []" "V ! i \<noteq> snd (hd runs')" using IH(5) rl(5) by auto
      then show ?thesis using IH(4) by (cases runs') (simp_all)
    next
      case False
      then show ?thesis using empty by simp
    qed
    have 5: "length ?runs \<le> length V - i" using IH(6) rl(2) rl(3) True by simp
    show ?thesis using 1 2 3 4 5 by auto
  qed
qed

lemma remdups_adj_replicate_append:
  assumes "0 < n" "W = [] \<or> hd W \<noteq> v"
  shows "remdups_adj (replicate n v @ W) = v # remdups_adj W"
  using assms(1)
proof (induction n)
  case 0
  then show ?case by simp
next
  case (Suc m)
  show ?case
  proof (cases "m = 0")
    case True
    then show ?thesis using assms(2) by (cases W) auto
  next
    case False
    then obtain m' where m: "m = Suc m'" by (cases m) auto
    have "remdups_adj (replicate (Suc m) v @ W) = remdups_adj (replicate m v @ W)"
      unfolding m by simp
    then show ?thesis using Suc.IH False by simp
  qed
qed

lemma hd_rle_expand:
  assumes "runs \<noteq> []" "\<forall>r \<in> set runs. fst r \<noteq> 0"
  shows "rle_expand runs \<noteq> [] \<and> hd (rle_expand runs) = snd (hd runs)"
proof -
  obtain rl v rest where r: "runs = (rl, v) # rest" using assms(1) by (cases runs) auto
  have "0 < unat rl" using assms(2) r by (simp add: unat_gt_0)
  then obtain m where m: "unat rl = Suc m" by (cases "unat rl") auto
  show ?thesis unfolding r rle_expand_Cons m by simp
qed

lemma remdups_adj_rle_expand:
  assumes "\<forall>r \<in> set runs. fst r \<noteq> 0" "distinct_adj (map snd runs)"
  shows "remdups_adj (rle_expand runs) = map snd runs"
  using assms
proof (induction runs)
  case Nil
  then show ?case by (simp add: rle_expand_Nil)
next
  case (Cons r runs)
  obtain rl v where r: "r = (rl, v)" by (cases r)
  have n: "0 < unat rl" using Cons.prems(1) r by (simp add: unat_gt_0)
  have IH: "remdups_adj (rle_expand runs) = map snd runs"
    using Cons.IH Cons.prems by (cases runs) simp_all
  have W: "rle_expand runs = [] \<or> hd (rle_expand runs) \<noteq> v"
  proof (cases "runs = []")
    case True
    then show ?thesis by (simp add: rle_expand_Nil)
  next
    case False
    then have "snd (hd runs) \<noteq> v" using Cons.prems(2) r by (cases runs) auto
    then show ?thesis using hd_rle_expand[OF False] Cons.prems(1) by simp
  qed
  show ?case
    unfolding r rle_expand_Cons remdups_adj_replicate_append[OF n W] IH by simp
qed

lemma short_runs_bounded:
  assumes "length V < 2 ^ 32"
  shows "\<forall>i n. i + n \<le> length V \<and> (\<forall>k<n. V ! (i + k) = V ! i) \<longrightarrow> n < 2 ^ 32"
    and "length (remdups_adj V) < 2 ^ 32"
proof -
  show "\<forall>i n. i + n \<le> length V \<and> (\<forall>k<n. V ! (i + k) = V ! i) \<longrightarrow> n < 2 ^ 32"
    using assms by auto
  show "length (remdups_adj V) < 2 ^ 32"
    by (rule le_less_trans[OF remdups_adj_length assms])
qed

lemma rle_runs_total:
  assumes "\<forall>i n. i + n \<le> length V \<and> (\<forall>k<n. V ! (i + k) = V ! i) \<longrightarrow> n < 2 ^ 32"
  shows "\<exists>runs. rle_runs V 0 [] = Some runs \<and> rle_expand runs = V \<and>
           (\<forall>r \<in> set runs. fst r \<noteq> 0) \<and> distinct_adj (map snd runs) \<and>
           map snd runs = remdups_adj V"
proof -
  from rle_runs_spec[OF assms, of 0 "[]"] obtain runs where r: "rle_runs V 0 [] = Some runs"
    "rle_expand runs = V" "\<forall>r \<in> set runs. fst r \<noteq> 0" "distinct_adj (map snd runs)"
    by auto
  from remdups_adj_rle_expand[OF r(3,4)] r show ?thesis by auto
qed

text \<open>
  The round trip of the RLE codec, for a non-empty vector: the encoder returns when the vector
  has no \<open>2^32\<close> equal values in a row (\<^verbatim>\<open>run_length\<close> is a \<^verbatim>\<open>uint32_t\<close>), the run count is
  written in full when there are fewer than \<open>2^32\<close> runs, and the decoder returns the vector
  when its result vector can hold it. The runs are maximal: none is empty, adjacent runs have
  different values, and their values are the vector without its adjacent repetitions.
\<close>

lemma RLE_encodeInt32_roundtrip:
  assumes "V \<noteq> []"
    "\<forall>i n. i + n \<le> length V \<and> (\<forall>k<n. V ! (i + k) = V ! i) \<longrightarrow> n < 2 ^ 32"
    "length (remdups_adj V) < 2 ^ 32" "length V \<le> cap"
  shows "\<exists>runs. rle_runs V 0 [] = Some runs \<and> RLE_encodeInt32 V = Some (rle_emit32 runs) \<and>
           rle_expand runs = V \<and> (\<forall>r \<in> set runs. fst r \<noteq> 0) \<and> distinct_adj (map snd runs) \<and>
           map snd runs = remdups_adj V \<and>
           RLE_decodeInt32 cap (rle_emit32 runs) (length (rle_emit32 runs)) (length V) = Inr V"
proof -
  from rle_runs_total[OF assms(2)] obtain runs where r: "rle_runs V 0 [] = Some runs"
    "rle_expand runs = V" "\<forall>r \<in> set runs. fst r \<noteq> 0" "distinct_adj (map snd runs)"
    "map snd runs = remdups_adj V" by blast
  have e: "RLE_encodeInt32 V = Some (rle_emit32 runs)"
    using assms(1) r(1) by (simp add: RLE_encodeInt32_def)
  have "length runs = length (map snd runs)" by simp
  then have l: "length runs < 2 ^ 32" unfolding r(5) using assms(3) by simp
  have d: "RLE_decodeInt32 cap (rle_emit32 runs) (length (rle_emit32 runs)) (length V) = Inr V"
    using RLE_decodeInt32_emit[OF l, of "length (rle_emit32 runs)" cap "[]" "length V"] r(2) assms(4)
    by simp
  show ?thesis using r e d by blast
qed

lemma RLE_encodeInt64_roundtrip:
  assumes "V \<noteq> []"
    "\<forall>i n. i + n \<le> length V \<and> (\<forall>k<n. V ! (i + k) = V ! i) \<longrightarrow> n < 2 ^ 32"
    "length (remdups_adj V) < 2 ^ 32" "length V \<le> cap"
  shows "\<exists>runs. rle_runs V 0 [] = Some runs \<and> RLE_encodeInt64 V = Some (rle_emit64 runs) \<and>
           rle_expand runs = V \<and> (\<forall>r \<in> set runs. fst r \<noteq> 0) \<and> distinct_adj (map snd runs) \<and>
           map snd runs = remdups_adj V \<and>
           RLE_decodeInt64 cap (rle_emit64 runs) (length (rle_emit64 runs)) (length V) = Inr V"
proof -
  from rle_runs_total[OF assms(2)] obtain runs where r: "rle_runs V 0 [] = Some runs"
    "rle_expand runs = V" "\<forall>r \<in> set runs. fst r \<noteq> 0" "distinct_adj (map snd runs)"
    "map snd runs = remdups_adj V" by blast
  have e: "RLE_encodeInt64 V = Some (rle_emit64 runs)"
    using assms(1) r(1) by (simp add: RLE_encodeInt64_def)
  have "length runs = length (map snd runs)" by simp
  then have l: "length runs < 2 ^ 32" unfolding r(5) using assms(3) by simp
  have d: "RLE_decodeInt64 cap (rle_emit64 runs) (length (rle_emit64 runs)) (length V) = Inr V"
    using RLE_decodeInt64_emit[OF l, of "length (rle_emit64 runs)" cap "[]" "length V"] r(2) assms(4)
    by simp
  show ?thesis using r e d by blast
qed

text \<open>
  Claim C1 says that the round trip holds for every vector, the empty one included. The
  encoders return zero bytes for the empty vector, as the delta encoders do. The delta
  decoders return the empty vector when \<open>num_values\<close> is 0; the RLE decoders have no such
  test and read the run count before anything else: on zero bytes \<open>decodeInt32\<close> and
  \<open>decodeInt64\<close> throw the truncated-varint error, they do not return the empty vector.
\<close>

theorem C1_rle_empty_vector_not_decoded:
  "RLE_encodeInt32 [] = Some [] \<and> RLE_decodeInt32 cap [] 0 0 = Inl Truncated \<and>
   RLE_encodeInt64 [] = Some [] \<and> RLE_decodeInt64 cap [] 0 0 = Inl Truncated \<and>
   Delta_encodeInt32 [] = [] \<and> Delta_decodeInt32 [] 0 0 = Inr [] \<and>
   Delta_encodeInt64 [] = [] \<and> Delta_decodeInt64 [] 0 0 = Inr []"
  by (simp add: RLE_encodeInt32_def RLE_encodeInt64_def RLE_decodeInt32_def RLE_decodeInt64_def
        Varint_decodeUInt32Safe_def decodeUInt32Safe_loop.simps
        Delta_encodeInt32_def Delta_encodeInt64_def Delta_decodeInt32_def Delta_decodeInt64_def)


section \<open>Properties of the delta codec\<close>

subsection \<open>Little-endian integers\<close>

lemma bit_le_word_le_bytes:
  fixes w :: "'a::len word"
  shows "bit (le_word (le_bytes k w) :: 'a word) n \<longleftrightarrow> n < 8 * k \<and> bit w n"
proof (induction k arbitrary: w n)
  case 0
  then show ?case by simp
next
  case (Suc k)
  show ?case
  proof (cases "n < 8")
    case True
    then show ?thesis using Suc.IH[of "drop_bit 8 w" "n - 8"]
      by (auto simp: bit_simps dest: bit_imp_le_length)
  next
    case False
    then have e: "8 + (n - 8) = n" by simp
    show ?thesis using Suc.IH[of "drop_bit 8 w" "n - 8"] False
      by (auto simp: bit_simps e dest: bit_imp_le_length)
  qed
qed

lemma le_word_le_bytes32: "le_word (le_bytes 4 (w :: 32 word)) = w"
  by (rule bit_word_eqI) (simp add: bit_le_word_le_bytes)

lemma le_word_le_bytes64: "le_word (le_bytes 8 (w :: 64 word)) = w"
  by (rule bit_word_eqI) (simp add: bit_le_word_le_bytes)

lemma length_le_bytes [simp]: "length (le_bytes n w) = n"
  by (induction n arbitrary: w) auto

lemma read_u32_le_bytes: "read_u32 (le_bytes 4 (w :: 32 word) @ rest) 0 = Inr w"
  by (simp add: read_u32_def le_word_le_bytes32)

lemma read_u64_le_bytes: "read_u64 (le_bytes 8 (w :: 64 word) @ rest) 0 = Inr w"
  by (simp add: read_u64_def le_word_le_bytes64)


subsection \<open>The delta loops\<close>

lemma delta_decode32_loop_encode:
  assumes "length pre + length (delta_encode32_loop prev xs) \<le> sz"
  shows "delta_decode32_loop (length xs) (pre @ delta_encode32_loop prev xs @ extra) sz (length pre) prev acc
         = Inr (acc @ xs)"
  using assms
proof (induction xs arbitrary: prev pre acc)
  case Nil
  then show ?case by simp
next
  case (Cons x xs)
  let ?e = "Varint_encodeInt32 (x - prev)"
  have le: "length pre + length ?e + length (delta_encode32_loop x xs) \<le> sz"
    using Cons.prems by simp
  have d: "Varint_decodeInt32Safe (drop (length pre) (pre @ (?e @ delta_encode32_loop x xs) @ extra))
             (size_t_sub sz (length pre)) = Inr (x - prev, length ?e)"
    using decodeInt32Safe_encode[of "x - prev" "sz - length pre" "delta_encode32_loop x xs @ extra"] le
    by simp
  have IH: "delta_decode32_loop (length xs) ((pre @ ?e) @ delta_encode32_loop x xs @ extra) sz
              (length (pre @ ?e)) x (acc @ [x]) = Inr ((acc @ [x]) @ xs)"
    by (rule Cons.IH) (use le in simp)
  show ?case using d IH by simp
qed

lemma delta_decode64_loop_encode:
  assumes "length pre + length (delta_encode64_loop prev xs) \<le> sz"
  shows "delta_decode64_loop (length xs) (pre @ delta_encode64_loop prev xs @ extra) sz (length pre) prev acc
         = Inr (acc @ xs)"
  using assms
proof (induction xs arbitrary: prev pre acc)
  case Nil
  then show ?case by simp
next
  case (Cons x xs)
  let ?e = "Varint_encodeInt64 (x - prev)"
  have le: "length pre + length ?e + length (delta_encode64_loop x xs) \<le> sz"
    using Cons.prems by simp
  have d: "Varint_decodeInt64Safe (drop (length pre) (pre @ (?e @ delta_encode64_loop x xs) @ extra))
             (size_t_sub sz (length pre)) = Inr (x - prev, length ?e)"
    using decodeInt64Safe_encode[of "x - prev" "sz - length pre" "delta_encode64_loop x xs @ extra"] le
    by simp
  have IH: "delta_decode64_loop (length xs) ((pre @ ?e) @ delta_encode64_loop x xs @ extra) sz
              (length (pre @ ?e)) x (acc @ [x]) = Inr ((acc @ [x]) @ xs)"
    by (rule Cons.IH) (use le in simp)
  show ?case using d IH by simp
qed

lemma Delta_decodeInt32_encode:
  assumes "length V \<le> 2 ^ 32"
  shows "Delta_decodeInt32 (Delta_encodeInt32 V) (length (Delta_encodeInt32 V)) (length V) = Inr V"
proof (cases V)
  case Nil
  then show ?thesis by (simp add: Delta_decodeInt32_def)
next
  case (Cons base xs)
  let ?c = "Varint_encodeUInt32 (of_nat (length xs))"
  let ?d = "delta_encode32_loop base xs"
  let ?data = "le_bytes 4 base @ ?c @ ?d"
  have enc: "Delta_encodeInt32 (base # xs) = ?data" by (simp add: Delta_encodeInt32_def)
  have n: "length xs < 2 ^ 32" using assms Cons by simp
  have r: "read_u32 ?data 0 = Inr base" by (rule read_u32_le_bytes)
  have s: "size_t_sub (length ?data) 4 = length ?c + length ?d" by (simp add: size_t_sub_def)
  have c: "Varint_decodeUInt32Safe (drop 4 ?data) (size_t_sub (length ?data) 4)
           = Inr (of_nat (length xs), length ?c)"
    unfolding s using decodeUInt32Safe_encode[of "of_nat (length xs)" "length ?c + length ?d" ?d]
    by simp
  have l: "delta_decode32_loop (length xs) ((le_bytes 4 base @ ?c) @ ?d @ []) (length ?data)
             (length (le_bytes 4 base @ ?c)) base [base] = Inr ([base] @ xs)"
    by (rule delta_decode32_loop_encode) simp
  have "Delta_decodeInt32 ?data (length ?data) (length (base # xs)) = Inr (base # xs)"
    using r c l n by (simp add: Delta_decodeInt32_def unat_of_nat_len32)
  then show ?thesis unfolding Cons enc .
qed

lemma Delta_decodeInt64_encode:
  assumes "length V \<le> 2 ^ 32"
  shows "Delta_decodeInt64 (Delta_encodeInt64 V) (length (Delta_encodeInt64 V)) (length V) = Inr V"
proof (cases V)
  case Nil
  then show ?thesis by (simp add: Delta_decodeInt64_def)
next
  case (Cons base xs)
  let ?c = "Varint_encodeUInt32 (of_nat (length xs))"
  let ?d = "delta_encode64_loop base xs"
  let ?data = "le_bytes 8 base @ ?c @ ?d"
  have enc: "Delta_encodeInt64 (base # xs) = ?data" by (simp add: Delta_encodeInt64_def)
  have n: "length xs < 2 ^ 32" using assms Cons by simp
  have r: "read_u64 ?data 0 = Inr base" by (rule read_u64_le_bytes)
  have s: "size_t_sub (length ?data) 8 = length ?c + length ?d" by (simp add: size_t_sub_def)
  have c: "Varint_decodeUInt32Safe (drop 8 ?data) (size_t_sub (length ?data) 8)
           = Inr (of_nat (length xs), length ?c)"
    unfolding s using decodeUInt32Safe_encode[of "of_nat (length xs)" "length ?c + length ?d" ?d]
    by simp
  have l: "delta_decode64_loop (length xs) ((le_bytes 8 base @ ?c) @ ?d @ []) (length ?data)
             (length (le_bytes 8 base @ ?c)) base [base] = Inr ([base] @ xs)"
    by (rule delta_decode64_loop_encode) simp
  have "Delta_decodeInt64 ?data (length ?data) (length (base # xs)) = Inr (base # xs)"
    using r c l n by (simp add: Delta_decodeInt64_def unat_of_nat_len32)
  then show ?thesis unfolding Cons enc .
qed

text \<open>When the number of deltas wraps to 0 in its \<open>uint32_t\<close>, only the base is decoded.\<close>

lemma Delta_decodeInt32_wrapped:
  assumes "V \<noteq> []" "(of_nat (length V - 1) :: 32 word) = 0"
  shows "Delta_decodeInt32 (Delta_encodeInt32 V) (length (Delta_encodeInt32 V)) (length V) = Inr [hd V]"
proof -
  let ?d = "delta_encode32_loop (hd V) (tl V)"
  let ?data = "le_bytes 4 (hd V) @ [0] @ ?d"
  have z: "Varint_encodeUInt32 0 = [0]" by code_simp
  have enc: "Delta_encodeInt32 V = ?data" using assms by (simp add: Delta_encodeInt32_def z)
  have r: "read_u32 ?data 0 = Inr (hd V)" by (rule read_u32_le_bytes)
  have s: "size_t_sub (length ?data) 4 = length [0 :: byte] + length ?d" by (simp add: size_t_sub_def)
  have c: "Varint_decodeUInt32Safe (drop 4 ?data) (size_t_sub (length ?data) 4) = Inr (0, 1)"
    unfolding s using decodeUInt32Safe_encode[of 0 "length [0 :: byte] + length ?d" ?d] z
    by simp
  show ?thesis using r c assms(1) by (simp add: Delta_decodeInt32_def enc)
qed


text \<open>
  Claim C2 says that the delta round trip holds for every vector. The number of deltas is
  written as a \<open>uint32_t\<close>: for the vector of \<open>2^32 + 1\<close> zeros the count \<open>2^32\<close> wraps to 0, and
  the decoder returns the base value alone.
\<close>

theorem C2_delta_count_wraps_counterexample:
  "Delta_decodeInt32 (Delta_encodeInt32 (replicate (2 ^ 32 + 1) 0))
     (length (Delta_encodeInt32 (replicate (2 ^ 32 + 1) 0)))
     (length (replicate (2 ^ 32 + 1) (0 :: 32 word))) = Inr [0] \<and>
   Delta_decodeInt32 (Delta_encodeInt32 (replicate (2 ^ 32 + 1) 0))
     (length (Delta_encodeInt32 (replicate (2 ^ 32 + 1) 0)))
     (length (replicate (2 ^ 32 + 1) (0 :: 32 word))) \<noteq> Inr (replicate (2 ^ 32 + 1) 0)"
proof -
  let ?V = "replicate (2 ^ 32 + 1) (0 :: 32 word)"
  have ne: "?V \<noteq> []" by simp
  have "(of_nat (2 ^ 32) :: 32 word) = 0" by simp
  then have w: "(of_nat (length ?V - 1) :: 32 word) = 0" by simp
  have h: "hd ?V = 0" by simp
  have r: "Delta_decodeInt32 (Delta_encodeInt32 ?V) (length (Delta_encodeInt32 ?V)) (length ?V) = Inr [0]"
    using Delta_decodeInt32_wrapped[OF ne w] h by simp
  have "length ?V \<noteq> length [0 :: 32 word]" by simp
  then have "?V \<noteq> [0]" by metis
  then show ?thesis using r by simp
qed

text \<open>
  Claim C2, amended. For every vector of at most \<open>2^32\<close> values (the empty one included),
  \<open>decodeInt32\<close> (resp. \<open>decodeInt64\<close>) applied to the output of \<open>encodeInt32\<close> (resp.
  \<open>encodeInt64\<close>) with the encoded length and \<open>num_values = |V|\<close> returns exactly the
  vector. The layout is the base in 4 (resp. 8) little-endian bytes, the number of deltas, and
  the deltas \<open>x - prev\<close>, computed and added back modulo \<open>2^32\<close> (resp. \<open>2^64\<close>): the round
  trip holds also where the difference of adjacent values overflows.
\<close>

theorem C2_delta_roundtrip:
  "(length V \<le> 2 ^ 32 \<longrightarrow>
      Delta_decodeInt32 (Delta_encodeInt32 V) (length (Delta_encodeInt32 V)) (length V) = Inr V) \<and>
   (length W \<le> 2 ^ 32 \<longrightarrow>
      Delta_decodeInt64 (Delta_encodeInt64 W) (length (Delta_encodeInt64 W)) (length W) = Inr W) \<and>
   Delta_encodeInt32 (a # xs) =
     le_bytes 4 a @ Varint_encodeUInt32 (of_nat (length xs)) @ delta_encode32_loop a xs \<and>
   Delta_encodeInt64 (b # ys) =
     le_bytes 8 b @ Varint_encodeUInt32 (of_nat (length ys)) @ delta_encode64_loop b ys \<and>
   delta_encode32_loop a (x # xs) = Varint_encodeInt32 (x - a) @ delta_encode32_loop x xs \<and>
   delta_encode64_loop b (y # ys) = Varint_encodeInt64 (y - b) @ delta_encode64_loop y ys"
  using Delta_decodeInt32_encode[of V] Delta_decodeInt64_encode[of W]
  by (simp add: Delta_encodeInt32_def Delta_encodeInt64_def)

theorem C2_delta_roundtrip_witness:
  "Delta_decodeInt32 (Delta_encodeInt32 [2147483647, - 2147483648, 0])
     (length (Delta_encodeInt32 [2147483647, - 2147483648, 0])) 3
     = Inr [2147483647, - 2147483648, 0] \<and>
   Delta_decodeInt64 (Delta_encodeInt64 [9223372036854775807, - 9223372036854775808, 0])
     (length (Delta_encodeInt64 [9223372036854775807, - 9223372036854775808, 0])) 3
     = Inr [9223372036854775807, - 9223372036854775808, 0] \<and>
   Delta_decodeInt32 (Delta_encodeInt32 []) (length (Delta_encodeInt32 [])) 0 = Inr []"
proof -
  note t = C2_delta_roundtrip[of "[2147483647, - 2147483648, 0]"
      "[9223372036854775807, - 9223372036854775808, 0]"]
  note u = C2_delta_roundtrip[of "[]" "[]"]
  have h1: "length [2147483647, - 2147483648, 0 :: 32 word] \<le> 2 ^ 32" by simp
  have h2: "length [9223372036854775807, - 9223372036854775808, 0 :: 64 word] \<le> 2 ^ 32" by simp
  have h3: "length ([] :: 32 word list) \<le> 2 ^ 32" by simp
  have l1: "length [2147483647, - 2147483648, 0 :: 32 word] = 3" by simp
  have l2: "length [9223372036854775807, - 9223372036854775808, 0 :: 64 word] = 3" by simp
  have l3: "length ([] :: 32 word list) = 0" by simp
  note a = mp[OF conjunct1[OF t] h1, unfolded l1]
  note b = mp[OF conjunct1[OF conjunct2[OF t]] h2, unfolded l2]
  note c = mp[OF conjunct1[OF u] h3, unfolded l3]
  show ?thesis using a b c by blast
qed

text \<open>
  Claim C8: the decoders should fail with \<open>Truncated\<close> on a buffer that ends inside the base
  value, the dictionary size or a dictionary entry, and not read past its end. The code copies
  these fields with \<open>memcpy\<close> without looking at \<open>size\<close>. On a 3-byte buffer
  \<open>DeltaEncoder::decodeInt32\<close> reads 4 bytes (7 of 8 for \<open>decodeInt64\<close>); when the memory after
  the 3 bytes is readable, \<open>size - 4\<close> wraps and the decoder returns values without any error;
  \<open>DictionaryEncoder::decode\<close> reads the 4-byte dictionary size from a 2-byte buffer, and a
  5-byte entry of which 2 bytes are there (whatever its vectors can hold, one string at least
  for the second buffer).
\<close>

theorem C8_unchecked_reads:
  "Delta_decodeInt32 [0x01, 0x02, 0x03] 3 1 = Inl OutOfBounds \<and>
   Delta_decodeInt64 [0x01, 0x02, 0x03, 0x04, 0x05, 0x06, 0x07] 7 1 = Inl OutOfBounds \<and>
   Delta_decodeInt32 [0x07, 0x00, 0x00, 0x00, 0x00] 3 1 = Inr [7] \<and>
   Dictionary_decode cap scap [0x01, 0x00] 2 1 = Inl OutOfBounds \<and>
   Dictionary_decode cap (Suc scap)
       [0x01, 0x00, 0x00, 0x00, 0x05, 0x00, 0x00, 0x00, 0x61, 0x62] 10 1
     = Inl OutOfBounds"
proof -
  have a: "Delta_decodeInt32 [0x01, 0x02, 0x03] 3 1 = Inl OutOfBounds" by code_simp
  have b: "Delta_decodeInt64 [0x01, 0x02, 0x03, 0x04, 0x05, 0x06, 0x07] 7 1 = Inl OutOfBounds"
    by code_simp
  have c: "Delta_decodeInt32 [0x07, 0x00, 0x00, 0x00, 0x00] 3 1 = Inr [7]"
    by (simp add: Delta_decodeInt32_def read_u32_def size_t_sub_def Varint_decodeUInt32Safe_def
          decodeUInt32Safe_loop.simps Let_def)
  have r1: "read_u32 [0x01, 0x00] 0 = Inl OutOfBounds" by code_simp
  have d: "Dictionary_decode cap scap [0x01, 0x00] 2 1 = Inl OutOfBounds"
    by (simp add: Dictionary_decode_def r1)
  have r2: "read_u32 [0x01, 0x00, 0x00, 0x00, 0x05, 0x00, 0x00, 0x00, 0x61, 0x62] 0 = Inr 1"
    by code_simp
  have r3: "dict_read_entries (unat (1 :: 32 word))
              [0x01, 0x00, 0x00, 0x00, 0x05, 0x00, 0x00, 0x00, 0x61, 0x62] 4 [] = Inl OutOfBounds"
    by code_simp
  have e: "Dictionary_decode cap (Suc scap)
             [0x01, 0x00, 0x00, 0x00, 0x05, 0x00, 0x00, 0x00, 0x61, 0x62] 10 1 = Inl OutOfBounds"
    unfolding Dictionary_decode_def r2 sum.case r3 by simp
  show ?thesis using a b c d e by blast
qed


section \<open>Properties of the dictionary codec\<close>

subsection \<open>Where an invalid-index error can come from\<close>

lemma decodeUInt32Safe_loop_no_index_error:
  "decodeUInt32Safe_loop data n r s p \<noteq> Inl InvalidDictIndex"
proof (induction data n r s p rule: decodeUInt32Safe_loop.induct)
  case (1 data n r s p)
  show ?case
    apply (subst decodeUInt32Safe_loop.simps)
    using 1 by (auto simp: Let_def)
qed

lemma Varint_decodeUInt32Safe_no_index_error:
  "Varint_decodeUInt32Safe d n \<noteq> Inl InvalidDictIndex"
  using decodeUInt32Safe_loop_no_index_error[of d n 0 0 0]
  by (simp add: Varint_decodeUInt32Safe_def)

lemma Varint_decodeInt32Safe_no_index_error:
  "Varint_decodeInt32Safe d n \<noteq> Inl InvalidDictIndex"
  using Varint_decodeUInt32Safe_no_index_error[of d n]
  by (auto simp: Varint_decodeInt32Safe_def split: sum.splits)

lemma push_back_run_no_index_error:
  "push_back_run cap j v acc \<noteq> Inl InvalidDictIndex"
  by (induction j arbitrary: acc) auto

lemma RLE_decodeInt32_runs_no_index_error:
  "RLE_decodeInt32_runs cap k data sz pos acc \<noteq> Inl InvalidDictIndex"
proof (induction k arbitrary: pos acc)
  case 0
  then show ?case by simp
next
  case (Suc k)
  show ?case
    using Suc
    by (auto simp: Varint_decodeUInt32Safe_no_index_error Varint_decodeInt32Safe_no_index_error
          push_back_run_no_index_error split: sum.splits prod.splits)
qed

lemma RLE_decodeInt32_no_index_error:
  "RLE_decodeInt32 cap data sz n \<noteq> Inl InvalidDictIndex"
  by (auto simp: RLE_decodeInt32_def RLE_decodeInt32_runs_no_index_error
        Varint_decodeUInt32Safe_no_index_error split: sum.splits prod.splits)

lemma read_u32_error: "read_u32 data pos = Inl e \<Longrightarrow> e = OutOfBounds"
  by (auto simp: read_u32_def split: if_splits)

lemma dict_read_entries_error:
  "dict_read_entries k data pos acc = Inl e \<Longrightarrow> e = OutOfBounds"
proof (induction k arbitrary: pos acc)
  case 0
  then show ?case by simp
next
  case (Suc k)
  then show ?case
    by (auto simp: read_u32_def split: sum.splits if_splits)
qed

lemma dict_read_entries_length:
  "dict_read_entries k data pos acc = Inr (dictionary, p) \<Longrightarrow> length dictionary = length acc + k"
proof (induction k arbitrary: pos acc)
  case 0
  then show ?case by simp
next
  case (Suc k)
  from Suc.prems obtain len where l: "read_u32 data pos = Inr len"
    by (auto split: sum.splits)
  from Suc.prems l have "dict_read_entries k data (pos + 4 + unat len)
      (acc @ [map char_of_byte (take (unat len) (drop (pos + 4) data))]) = Inr (dictionary, p)"
    by (auto split: if_splits)
  from Suc.IH[OF this] show ?case by simp
qed


subsection \<open>The lookups\<close>

lemma dict_lookup_all_result:
  assumes "length acc + length idxs \<le> scap"
  shows "dict_lookup_all scap dictionary idxs acc =
     (if \<exists>idx \<in> set idxs. sint idx < 0 \<or> sint (of_nat (length dictionary) :: 32 word) \<le> sint idx
      then Inl InvalidDictIndex
      else Inr (acc @ map (\<lambda>idx. dictionary ! nat (sint idx)) idxs))"
  using assms by (induction idxs arbitrary: acc) auto

lemma dict_lookup_all_index_error:
  assumes "dict_lookup_all scap dictionary idxs acc = Inl InvalidDictIndex"
  shows "\<exists>idx \<in> set idxs. sint idx < 0 \<or> sint (of_nat (length dictionary) :: 32 word) \<le> sint idx"
  using assms by (induction idxs arbitrary: acc) (auto split: if_splits)

lemma sint_of_nat32: "sint (of_nat n :: 32 word) = signed_take_bit 31 (int n)"
  by (simp add: signed_of_nat)

lemma sint_of_nat_small:
  assumes "n < 2 ^ 31"
  shows "sint (of_nat n :: 32 word) = int n"
  unfolding sint_of_nat32
  by (rule signed_take_bit_int_eq_self) (use assms in auto)

lemma sint_of_nat_large:
  assumes "2 ^ 31 \<le> n" "n < 2 ^ 32"
  shows "sint (of_nat n :: 32 word) = int n - 2 ^ 32"
proof -
  define m where "m = int n - 2 ^ 31"
  have m: "0 \<le> m" "m < 2 ^ 31" using assms by (simp_all add: m_def)
  have n: "int n = m + 2 ^ 31 * 1" by (simp add: m_def)
  have "int n div 2 ^ 31 = 1 + m div 2 ^ 31" unfolding n by (rule div_mult_self2) simp
  then have d: "int n div 2 ^ 31 = 1" using m by simp
  have "odd (int n div 2 ^ 31)" unfolding d by simp
  then have b: "bit (int n) 31" unfolding bit_iff_odd .
  have t: "take_bit 32 (int n) = int n"
    by (rule take_bit_int_eq_self) (use assms in auto)
  have "signed_take_bit 31 (int n) = take_bit (Suc 31) (int n) - 2 ^ Suc 31 * of_bool (bit (int n) 31)"
    by (rule signed_take_bit_eq_take_bit_minus)
  then show ?thesis using b t by (simp add: sint_of_nat32)
qed



lemma dict_lookup_all_small:
  assumes "length dictionary < 2 ^ 31" "length idxs \<le> scap"
  shows "dict_lookup_all scap dictionary idxs [] =
           (if \<exists>idx \<in> set idxs. \<not> (0 \<le> sint idx \<and> sint idx < int (length dictionary))
            then Inl InvalidDictIndex
            else Inr (map (\<lambda>idx. dictionary ! nat (sint idx)) idxs))"
proof -
  have l: "length ([] :: string list) + length idxs \<le> scap" using assms(2) by simp
  show ?thesis
    unfolding dict_lookup_all_result[OF l] sint_of_nat_small[OF assms(1)]
    by (auto simp: not_le not_less)
qed

lemma dict_lookup_all_large:
  assumes "2 ^ 31 \<le> length dictionary" "length dictionary < 2 ^ 32" "idxs \<noteq> []"
  shows "dict_lookup_all scap dictionary idxs [] = Inl InvalidDictIndex"
proof -
  obtain idx rest where i: "idxs = idx # rest" using assms(3) by (cases idxs) auto
  have "sint (of_nat (length dictionary) :: 32 word) < 0"
    using sint_of_nat_large[OF assms(1,2)] assms(2) by simp
  then have "sint idx < 0 \<or> sint (of_nat (length dictionary) :: 32 word) \<le> sint idx"
    by linarith
  then show ?thesis unfolding i by simp
qed

subsection \<open>The decoder\<close>

lemma Dictionary_decode_lookup:
  assumes "read_u32 data 0 = Inr ds" "unat ds \<le> scap"
    "dict_read_entries (unat ds) data 4 [] = Inr (dictionary, pos)"
    "RLE_decodeInt32 cap (drop pos data) (size_t_sub sz pos) n = Inr idxs" "n \<le> scap"
  shows "Dictionary_decode cap scap data sz n = dict_lookup_all scap dictionary idxs []"
  using assms by (simp add: Dictionary_decode_def)

lemma Dictionary_decode_index_error:
  assumes "Dictionary_decode cap scap data sz n = Inl InvalidDictIndex"
  shows "\<exists>ds dictionary pos idxs. read_u32 data 0 = Inr ds \<and>
           dict_read_entries (unat ds) data 4 [] = Inr (dictionary, pos) \<and>
           RLE_decodeInt32 cap (drop pos data) (size_t_sub sz pos) n = Inr idxs \<and>
           (\<exists>idx \<in> set idxs. sint idx < 0 \<or> sint (of_nat (length dictionary) :: 32 word) \<le> sint idx)"
proof (cases "read_u32 data 0")
  case (Inl e)
  then show ?thesis using assms read_u32_error[OF Inl] by (simp add: Dictionary_decode_def)
next
  case ds: (Inr ds)
  show ?thesis
  proof (cases "dict_read_entries (unat ds) data 4 []")
    case (Inl e)
    then show ?thesis using assms ds dict_read_entries_error[OF Inl]
      by (simp add: Dictionary_decode_def split: if_splits)
  next
    case (Inr x)
    obtain dictionary pos where x: "x = (dictionary, pos)" by (cases x)
    show ?thesis
    proof (cases "RLE_decodeInt32 cap (drop pos data) (size_t_sub sz pos) n")
      case (Inl e)
      then show ?thesis
        using assms ds Inr x RLE_decodeInt32_no_index_error[of cap "drop pos data"]
        by (simp add: Dictionary_decode_def split: if_splits)
    next
      case idxs: (Inr idxs)
      have "dict_lookup_all scap dictionary idxs [] = Inl InvalidDictIndex"
        using assms ds Inr x idxs by (simp add: Dictionary_decode_def split: if_splits)
      from dict_lookup_all_index_error[OF this] show ?thesis using ds Inr x idxs by blast
    qed
  qed
qed

lemma char_of_byte_of_char [simp]: "char_of_byte (byte_of_char c) = c"
proof -
  have "unat (of_char c :: 8 word) = unat (of_nat (of_char c :: nat) :: 8 word)"
    by (simp only: of_nat_of_char)
  also have "\<dots> = of_char c" by (simp add: unat_of_nat take_bit_eq_mod)
  finally show ?thesis by (simp add: char_of_byte_def byte_of_char_def)
qed

lemma read_u32_at: "read_u32 (pre @ le_bytes 4 (w :: 32 word) @ rest) (length pre) = Inr w"
  by (simp add: read_u32_def le_word_le_bytes32)

lemma length_dict_emit_entry [simp]: "length (dict_emit_entry s) = 4 + length s"
  by (simp add: dict_emit_entry_def)

lemma dict_read_entries_emit:
  assumes "\<forall>s \<in> set dv. length s < 2 ^ 32"
  shows "dict_read_entries (length dv) (pre @ concat (map dict_emit_entry dv) @ rest) (length pre) acc
         = Inr (acc @ dv, length pre + length (concat (map dict_emit_entry dv)))"
  using assms
proof (induction dv arbitrary: pre acc)
  case Nil
  then show ?case by simp
next
  case (Cons s dv)
  let ?w = "of_nat (length s) :: 32 word"
  let ?tail = "concat (map dict_emit_entry dv) @ rest"
  have u: "unat ?w = length s" using Cons.prems by (simp add: unat_of_nat take_bit_nat_eq_self)
  have d: "pre @ concat (map dict_emit_entry (s # dv)) @ rest
           = pre @ le_bytes 4 ?w @ (map byte_of_char s @ ?tail)"
    by (simp add: dict_emit_entry_def)
  have d2: "pre @ concat (map dict_emit_entry (s # dv)) @ rest
           = (pre @ dict_emit_entry s) @ ?tail"
    by simp
  have r: "read_u32 (pre @ concat (map dict_emit_entry (s # dv)) @ rest) (length pre) = Inr ?w"
    unfolding d by (rule read_u32_at)
  have t: "map char_of_byte (take (length s) (drop (length pre + 4)
             (pre @ concat (map dict_emit_entry (s # dv)) @ rest))) = s"
    unfolding d by (simp add: comp_def)
  have ih: "dict_read_entries (length dv) ((pre @ dict_emit_entry s) @ ?tail)
              (length (pre @ dict_emit_entry s)) (acc @ [s])
            = Inr ((acc @ [s]) @ dv, length (pre @ dict_emit_entry s) + length (concat (map dict_emit_entry dv)))"
    using Cons.IH[of "pre @ dict_emit_entry s" "acc @ [s]"] Cons.prems by simp
  have b: "length pre + 4 + length s \<le> length (pre @ concat (map dict_emit_entry (s # dv)) @ rest)"
    by simp
  have "dict_read_entries (length (s # dv)) (pre @ concat (map dict_emit_entry (s # dv)) @ rest) (length pre) acc
        = dict_read_entries (length dv) (pre @ concat (map dict_emit_entry (s # dv)) @ rest)
            (length pre + 4 + length s) (acc @ [s])"
    using b by (simp only: list.size dict_read_entries.simps r u t sum.case if_True Suc_eq_plus1[symmetric] add_Suc_right add_0_right)
  also have "\<dots> = Inr ((acc @ [s]) @ dv, length (pre @ dict_emit_entry s) + length (concat (map dict_emit_entry dv)))"
    using ih unfolding d2[symmetric] by (simp add: add.assoc)
  finally show ?case by (simp add: add.assoc)
qed




lemma dict_emit_entry_Nil: "dict_emit_entry [] = [0, 0, 0, 0]"
  by code_simp

text \<open>
  Claim C9 says that \<open>decode\<close> raises \<open>InvalidDictIndex\<close> exactly when some decoded index lies
  outside \<open>[0, dict_size)\<close>. The test of the decoder is
  \<^verbatim>\<open>idx < 0 || idx >= static_cast<int32_t>(dictionary.size())\<close>: with \<open>2^31\<close> dictionary entries
  the cast is negative and every index fails the test. The buffer below holds a dictionary of
  \<open>2^31\<close> empty strings and the single index 0, which lies within \<open>[0, 2^31)\<close>.
\<close>

theorem C9_large_dictionary_counterexample:
  "read_u32 ([0, 0, 0, 0x80] @ concat (replicate (2 ^ 31) [0, 0, 0, 0]) @ [1, 1, 0]) 0 = Inr (2 ^ 31) \<and>
   dict_read_entries (2 ^ 31) ([0, 0, 0, 0x80] @ concat (replicate (2 ^ 31) [0, 0, 0, 0]) @ [1, 1, 0]) 4 []
     = Inr (replicate (2 ^ 31) [], 4 + 4 * 2 ^ 31) \<and>
   RLE_decodeInt32 1 [1, 1, 0] 3 1 = Inr [0] \<and>
   Dictionary_decode 1 (2 ^ 31) ([0, 0, 0, 0x80] @ concat (replicate (2 ^ 31) [0, 0, 0, 0]) @ [1, 1, 0])
     (4 + 4 * 2 ^ 31 + 3) 1 = Inl InvalidDictIndex"
proof -
  define k :: nat where "k = 2 ^ 31"
  define data :: "byte list" where
    "data = [0, 0, 0, 0x80] @ concat (replicate k [0, 0, 0, 0]) @ [1, 1, 0]"
  have kb: "k < 2 ^ 32" "2 ^ 31 \<le> k" by (simp_all add: k_def)
  have u: "unat (of_nat k :: 32 word) = k"
    using kb(1) by (simp add: unat_of_nat take_bit_nat_eq_self)
  have w2: "(of_nat k :: 32 word) = 2 ^ 31" unfolding k_def by simp
  have w0: "le_bytes 4 (2 ^ 31 :: 32 word) = [0, 0, 0, 0x80]" by code_simp
  have dd: "data = le_bytes 4 (of_nat k :: 32 word) @ concat (replicate k [0, 0, 0, 0]) @ [1, 1, 0]"
    unfolding data_def w2 w0 ..
  have m: "concat (replicate k [0, 0, 0, 0 :: byte]) = concat (map dict_emit_entry (replicate k []))"
    by (simp add: dict_emit_entry_Nil)
  have l: "length (concat (replicate k [0, 0, 0, 0 :: byte])) = 4 * k"
    by (simp add: length_concat sum_list_replicate)
  have 1: "read_u32 data 0 = Inr (of_nat k)"
    unfolding dd by (rule read_u32_le_bytes)
  have 2: "dict_read_entries k data 4 [] = Inr (replicate k [], 4 + 4 * k)"
    using dict_read_entries_emit[of "replicate k []" "le_bytes 4 (of_nat k :: 32 word)" "[1, 1, 0]" "[]"]
    unfolding dd m[symmetric] l by simp
  have d: "drop (4 + 4 * k) data = [1, 1, 0]"
    unfolding dd using l by simp
  have sb: "size_t_sub (4 + 4 * k + 3) (4 + 4 * k) = 3" by (simp add: size_t_sub_def)
  have r: "RLE_decodeInt32 1 [1, 1, 0] 3 1 = Inr [0]" by code_simp
  have 3: "RLE_decodeInt32 1 (drop (4 + 4 * k) data) (size_t_sub (4 + 4 * k + 3) (4 + 4 * k)) 1 = Inr [0]"
    unfolding d sb by (rule r)
  have L: "dict_lookup_all k (replicate k []) [0] [] = Inl InvalidDictIndex"
    by (rule dict_lookup_all_large) (use kb in simp_all)
  have 4: "Dictionary_decode 1 k data (4 + 4 * k + 3) 1 = Inl InvalidDictIndex"
    using Dictionary_decode_lookup[of data "of_nat k" k "replicate k []" "4 + 4 * k" 1
        "4 + 4 * k + 3" 1 "[0]"] 1 2 3 kb(2) L unfolding u by simp
  have r1: "read_u32 data 0 = Inr (2 ^ 31)" using 1 unfolding w2 .
  show ?thesis
    using r1 2 r 4 unfolding data_def k_def by (intro conjI)
qed

text \<open>
  Claim C9, amended. Let the dictionary of the buffer be read (\<open>dict_size\<close> entries, fewer than
  \<open>2^31\<close>) and its indices be decoded, and let the vectors hold them (\<open>dict_size\<close> and
  \<open>num_values\<close> strings reserved, one string for each index). Then \<open>decode\<close> raises
  \<open>InvalidDictIndex\<close> exactly when some decoded index lies outside \<open>[0, dict_size)\<close>, and when no
  index does, it returns for every index the dictionary entry at that index, in order. For
  every buffer, an \<open>InvalidDictIndex\<close> error comes from a decoded index that fails the test of
  the decoder, and from nothing else.
\<close>

theorem C9_invalid_dict_index:
  "(read_u32 data 0 = Inr ds \<and> unat ds \<le> scap \<and>
    dict_read_entries (unat ds) data 4 [] = Inr (dictionary, pos) \<and>
    RLE_decodeInt32 cap (drop pos data) (size_t_sub sz pos) n = Inr idxs \<and>
    n \<le> scap \<and> length idxs \<le> scap \<and> unat ds < 2 ^ 31 \<longrightarrow>
      length dictionary = unat ds \<and>
      (Dictionary_decode cap scap data sz n = Inl InvalidDictIndex \<longleftrightarrow>
         (\<exists>idx \<in> set idxs. \<not> (0 \<le> sint idx \<and> sint idx < int (unat ds)))) \<and>
      ((\<forall>idx \<in> set idxs. 0 \<le> sint idx \<and> sint idx < int (unat ds)) \<longrightarrow>
         Dictionary_decode cap scap data sz n = Inr (map (\<lambda>idx. dictionary ! nat (sint idx)) idxs))) \<and>
   (Dictionary_decode cap scap data sz n = Inl InvalidDictIndex \<longrightarrow>
      (\<exists>ds dictionary pos idxs. read_u32 data 0 = Inr ds \<and>
         dict_read_entries (unat ds) data 4 [] = Inr (dictionary, pos) \<and>
         RLE_decodeInt32 cap (drop pos data) (size_t_sub sz pos) n = Inr idxs \<and>
         (\<exists>idx \<in> set idxs.
            sint idx < 0 \<or> sint (of_nat (length dictionary) :: 32 word) \<le> sint idx)))"
proof -
  have 1: "length dictionary = unat ds \<and>
      (Dictionary_decode cap scap data sz n = Inl InvalidDictIndex \<longleftrightarrow>
         (\<exists>idx \<in> set idxs. \<not> (0 \<le> sint idx \<and> sint idx < int (unat ds)))) \<and>
      ((\<forall>idx \<in> set idxs. 0 \<le> sint idx \<and> sint idx < int (unat ds)) \<longrightarrow>
         Dictionary_decode cap scap data sz n = Inr (map (\<lambda>idx. dictionary ! nat (sint idx)) idxs))"
    if a: "read_u32 data 0 = Inr ds" "unat ds \<le> scap"
      "dict_read_entries (unat ds) data 4 [] = Inr (dictionary, pos)"
      "RLE_decodeInt32 cap (drop pos data) (size_t_sub sz pos) n = Inr idxs"
      "n \<le> scap" and b: "length idxs \<le> scap" and c: "unat ds < 2 ^ 31"
  proof -
    have len: "length dictionary = unat ds" using dict_read_entries_length[OF a(3)] by simp
    note D = Dictionary_decode_lookup[OF a]
    have l: "length dictionary < 2 ^ 31" using len c by simp
    show ?thesis
      unfolding D dict_lookup_all_small[OF l b] len by auto
  qed
  show ?thesis using 1 Dictionary_decode_index_error[of cap scap data sz n] by blast
qed

theorem C9_invalid_dict_index_witness:
  "Dictionary_decode 4 4 [2,0,0,0, 1,0,0,0,0x61, 1,0,0,0,0x62, 1, 1,4] 17 1 = Inl InvalidDictIndex \<and>
   Dictionary_decode 4 4 [2,0,0,0, 1,0,0,0,0x61, 1,0,0,0,0x62, 2, 1,2, 1,0] 19 2 = Inr [''b'', ''a'']"
proof -
  let ?A = "[2,0,0,0, 1,0,0,0,0x61, 1,0,0,0,0x62, 1, 1,4] :: byte list"
  let ?B = "[2,0,0,0, 1,0,0,0,0x61, 1,0,0,0,0x62, 2, 1,2, 1,0] :: byte list"
  have a1: "read_u32 ?A 0 = Inr 2" by code_simp
  have a2: "dict_read_entries (unat (2 :: 32 word)) ?A 4 [] = Inr ([''a'', ''b''], 14)" by code_simp
  have a3: "RLE_decodeInt32 4 (drop 14 ?A) (size_t_sub 17 14) 1 = Inr [2]" by code_simp
  have a4: "unat (2 :: 32 word) \<le> 4" "(1 :: nat) \<le> 4" "length [2 :: 32 word] \<le> 4"
    "unat (2 :: 32 word) < 2 ^ 31" "(2 :: nat) \<le> 4" "length [1, 0 :: 32 word] \<le> 4"
    by simp_all
  have a5: "\<exists>idx \<in> set [2 :: 32 word]. \<not> (0 \<le> sint idx \<and> sint idx < int (unat (2 :: 32 word)))"
    by simp
  have b1: "read_u32 ?B 0 = Inr 2" by code_simp
  have b2: "dict_read_entries (unat (2 :: 32 word)) ?B 4 [] = Inr ([''a'', ''b''], 14)" by code_simp
  have b3: "RLE_decodeInt32 4 (drop 14 ?B) (size_t_sub 19 14) 2 = Inr [1, 0]" by code_simp
  have b5: "\<forall>idx \<in> set [1, 0 :: 32 word]. 0 \<le> sint idx \<and> sint idx < int (unat (2 :: 32 word))"
    by simp
  have b6: "map (\<lambda>idx. [''a'', ''b''] ! nat (sint idx)) [1, 0 :: 32 word] = [''b'', ''a'']"
    by simp
  have pa: "read_u32 ?A 0 = Inr 2 \<and> unat (2 :: 32 word) \<le> 4 \<and>
      dict_read_entries (unat (2 :: 32 word)) ?A 4 [] = Inr ([''a'', ''b''], 14) \<and>
      RLE_decodeInt32 4 (drop 14 ?A) (size_t_sub 17 14) 1 = Inr [2] \<and>
      (1 :: nat) \<le> 4 \<and> length [2 :: 32 word] \<le> 4 \<and> unat (2 :: 32 word) < 2 ^ 31"
    by (intro conjI a1 a4(1) a2 a3 a4(2) a4(3) a4(4))
  have pb: "read_u32 ?B 0 = Inr 2 \<and> unat (2 :: 32 word) \<le> 4 \<and>
      dict_read_entries (unat (2 :: 32 word)) ?B 4 [] = Inr ([''a'', ''b''], 14) \<and>
      RLE_decodeInt32 4 (drop 14 ?B) (size_t_sub 19 14) 2 = Inr [1, 0] \<and>
      (2 :: nat) \<le> 4 \<and> length [1, 0 :: 32 word] \<le> 4 \<and> unat (2 :: 32 word) < 2 ^ 31"
    by (intro conjI b1 a4(1) b2 b3 a4(5) a4(6) a4(4))
  note A = conjunct1[OF conjunct2[OF mp[OF conjunct1[OF
      C9_invalid_dict_index[of ?A 2 4 "[''a'', ''b'']" 14 4 17 1 "[2]"]] pa]]]
  note B = conjunct2[OF conjunct2[OF mp[OF conjunct1[OF
      C9_invalid_dict_index[of ?B 2 4 "[''a'', ''b'']" 14 4 19 2 "[1, 0]"]] pb]]]
  have ra: "Dictionary_decode 4 4 ?A 17 1 = Inl InvalidDictIndex"
    using A a5 by blast
  have rb: "Dictionary_decode 4 4 ?B 19 2 = Inr [''b'', ''a'']"
    using mp[OF B b5] unfolding b6 .
  show ?thesis using ra rb by (rule conjI)
qed

subsection \<open>The build loop of the encoder\<close>

lemma remdups_snoc: "remdups (xs @ [v]) = remdups (filter (\<lambda>x. x \<noteq> v) xs) @ [v]"
  by (induction xs) auto

lemma first_seen_Cons:
  "rev (remdups (rev (v # F))) = v # rev (remdups (rev (filter (\<lambda>x. x \<noteq> v) F)))"
  by (simp add: remdups_snoc rev_filter)

lemma dict_build_spec:
  assumes "distinct dv" "dom dict = set dv" "\<forall>i<length dv. dict (dv ! i) = Some (of_nat i)"
  shows "\<exists>dict' dv' idxs'. dict_build vs dict dv idxs = (dict', dv', idxs') \<and>
           distinct dv' \<and> dom dict' = set dv' \<and>
           (\<forall>i<length dv'. dict' (dv' ! i) = Some (of_nat i)) \<and>
           dict \<subseteq>\<^sub>m dict' \<and>
           dv' = dv @ rev (remdups (rev (filter (\<lambda>v. v \<notin> set dv) vs))) \<and>
           idxs' = idxs @ map (\<lambda>v. the (dict' v)) vs"
  using assms
proof (induction vs arbitrary: dict dv idxs)
  case Nil
  then show ?case by simp
next
  case (Cons v vs)
  show ?case
  proof (cases "v \<in> set dv")
    case True
    then obtain idx where idx: "dict v = Some idx" using Cons.prems(2) by auto
    from Cons.IH[OF Cons.prems, of "idxs @ [idx]"]
    obtain dict' dv' idxs' where r: "dict_build vs dict dv (idxs @ [idx]) = (dict', dv', idxs')"
      "distinct dv'" "dom dict' = set dv'" "\<forall>i<length dv'. dict' (dv' ! i) = Some (of_nat i)"
      "dict \<subseteq>\<^sub>m dict'" "dv' = dv @ rev (remdups (rev (filter (\<lambda>v. v \<notin> set dv) vs)))"
      "idxs' = (idxs @ [idx]) @ map (\<lambda>v. the (dict' v)) vs"
      by blast
    have "dict' v = Some idx" using r(5) idx by (auto simp: map_le_def dom_def)
    then have i: "idxs' = idxs @ map (\<lambda>v. the (dict' v)) (v # vs)" using r(7) by simp
    have d: "dv' = dv @ rev (remdups (rev (filter (\<lambda>v. v \<notin> set dv) (v # vs))))"
      using r(6) True by simp
    have b: "dict_build (v # vs) dict dv idxs = (dict', dv', idxs')"
      using idx r(1) by simp
    show ?thesis using b r(2,3,4,5) d i by blast
  next
    case False
    then have none: "dict v = None" using Cons.prems(2) by auto
    let ?dict1 = "dict(v \<mapsto> of_nat (length dv))"
    let ?dv1 = "dv @ [v]"
    have p1: "distinct ?dv1" using Cons.prems(1) False by simp
    have p2: "dom ?dict1 = set ?dv1" using Cons.prems(2) by auto
    have p3: "\<forall>i<length ?dv1. ?dict1 (?dv1 ! i) = Some (of_nat i)"
    proof (intro allI impI)
      fix i assume "i < length ?dv1"
      then consider "i < length dv" | "i = length dv" by fastforce
      then show "?dict1 (?dv1 ! i) = Some (of_nat i)"
      proof cases
        case 1
        then have "dv ! i \<noteq> v" using False by auto
        then show ?thesis using 1 Cons.prems(3) by (simp add: nth_append)
      next
        case 2
        then show ?thesis by simp
      qed
    qed
    from Cons.IH[OF p1 p2 p3, of "idxs @ [of_nat (length dv)]"]
    obtain dict' dv' idxs' where r: "dict_build vs ?dict1 ?dv1 (idxs @ [of_nat (length dv)]) = (dict', dv', idxs')"
      "distinct dv'" "dom dict' = set dv'" "\<forall>i<length dv'. dict' (dv' ! i) = Some (of_nat i)"
      "?dict1 \<subseteq>\<^sub>m dict'" "dv' = ?dv1 @ rev (remdups (rev (filter (\<lambda>x. x \<notin> set ?dv1) vs)))"
      "idxs' = (idxs @ [of_nat (length dv)]) @ map (\<lambda>v. the (dict' v)) vs"
      by blast
    have v: "dict' v = Some (of_nat (length dv))" using r(5) by (auto simp: map_le_def)
    have le: "dict \<subseteq>\<^sub>m dict'" using r(5) none by (auto simp: map_le_def dom_def)
    have i: "idxs' = idxs @ map (\<lambda>v. the (dict' v)) (v # vs)" using r(7) v by simp
    define F where "F = filter (\<lambda>x. x \<notin> set dv) vs"
    have f: "filter (\<lambda>x. x \<notin> set ?dv1) vs = filter (\<lambda>x. x \<noteq> v) F"
      unfolding F_def by (induction vs) auto
    have g: "filter (\<lambda>x. x \<notin> set dv) (v # vs) = v # F"
      unfolding F_def using False by simp
    have "dv' = dv @ (v # rev (remdups (rev (filter (\<lambda>x. x \<noteq> v) F))))"
      using r(6) unfolding f by simp
    then have d: "dv' = dv @ rev (remdups (rev (filter (\<lambda>v. v \<notin> set dv) (v # vs))))"
      unfolding g first_seen_Cons .
    have b: "dict_build (v # vs) dict dv idxs = (dict', dv', idxs')"
      using none r(1) by (simp add: Let_def)
    show ?thesis using b r(2,3,4) le d i by blast
  qed
qed

lemma dict_build_first_seen:
  assumes "dict_build V Map.empty [] [] = (dict, dv, idxs)"
  shows "dv = rev (remdups (rev V))" "distinct dv" "set dv = set V" "length idxs = length V"
    "\<forall>j<length V. \<exists>i<length dv. dv ! i = V ! j \<and> idxs ! j = of_nat i"
    "idxs = map (\<lambda>v. the (dict v)) V" "\<forall>i<length dv. dict (dv ! i) = Some (of_nat i)"
proof -
  from dict_build_spec[of "[]" Map.empty V "[]"]
  obtain dict' dv' idxs' where b: "dict_build V Map.empty [] [] = (dict', dv', idxs')"
    and p: "distinct dv'" "dom dict' = set dv'" "\<forall>i<length dv'. dict' (dv' ! i) = Some (of_nat i)"
      "dv' = [] @ rev (remdups (rev (filter (\<lambda>v. v \<notin> set []) V)))"
      "idxs' = [] @ map (\<lambda>v. the (dict' v)) V"
    by auto
  have e: "dict' = dict" "dv' = dv" "idxs' = idxs" using b assms by simp_all
  have r: "distinct dv" "dom dict = set dv" "\<forall>i<length dv. dict (dv ! i) = Some (of_nat i)"
    "dv = rev (remdups (rev V))" "idxs = map (\<lambda>v. the (dict v)) V"
    using p unfolding e by simp_all
  show "dv = rev (remdups (rev V))" by (rule r(4))
  show "idxs = map (\<lambda>v. the (dict v)) V" by (rule r(5))
  show "\<forall>i<length dv. dict (dv ! i) = Some (of_nat i)" by (rule r(3))
  show "distinct dv" by (rule r(1))
  show s: "set dv = set V" unfolding r(4) by simp
  show "length idxs = length V" unfolding r(5) by simp
  show "\<forall>j<length V. \<exists>i<length dv. dv ! i = V ! j \<and> idxs ! j = of_nat i"
  proof (intro allI impI)
    fix j assume j: "j < length V"
    then have "V ! j \<in> set dv" using s by simp
    then obtain i where i: "i < length dv" "dv ! i = V ! j" by (auto simp: in_set_conv_nth)
    have "idxs ! j = the (dict (V ! j))" unfolding r(5) using j by simp
    also have "\<dots> = of_nat i" using r(3) i by auto
    finally show "\<exists>i<length dv. dv ! i = V ! j \<and> idxs ! j = of_nat i" using i by blast
  qed
qed


subsection \<open>Decoding what was encoded\<close>

lemma remdups_adj_map_inj_on:
  assumes "inj_on f (set xs)"
  shows "remdups_adj (map f xs) = map f (remdups_adj xs)"
  using assms by (induction xs rule: remdups_adj.induct) (auto simp: inj_on_def)

lemma Dictionary_roundtrip:
  assumes "V \<noteq> []"
    "\<forall>i n. i + n \<le> length V \<and> (\<forall>k<n. V ! (i + k) = V ! i) \<longrightarrow> n < 2 ^ 32"
    "length (remdups_adj V) < 2 ^ 32"
    "card (set V) < 2 ^ 31" "\<forall>s \<in> set V. length s < 2 ^ 32"
    "length V \<le> cap" "length V \<le> scap"
  shows "\<exists>bytes. Dictionary_encode V = Some bytes \<and>
           Dictionary_decode cap scap bytes (length bytes) (length V) = Inr V"
proof -
  obtain dict dv idxs where b: "dict_build V Map.empty [] [] = (dict, dv, idxs)"
    by (cases "dict_build V Map.empty [] []") auto
  note F = dict_build_first_seen[OF b]
  have k: "length dv = card (set V)" using distinct_card[OF F(2)] F(3) by simp
  have k31: "length dv < 2 ^ 31" using k assms(4) by simp
  have kle: "length dv \<le> length V" unfolding k by (rule card_length)
  have ne: "idxs \<noteq> []" using F(4) assms(1) by auto
  define f where "f = (\<lambda>v. the (dict v))"
  have im: "idxs = map f V" unfolding f_def by (rule F(6))
  have fv: "\<exists>i<length dv. dv ! i = v \<and> f v = of_nat i" if "v \<in> set V" for v
  proof -
    have "v \<in> set dv" using that F(3) by simp
    then obtain i where i: "i < length dv" "dv ! i = v" by (auto simp: in_set_conv_nth)
    then show ?thesis using F(7) unfolding f_def by auto
  qed
  have inj: "inj_on f (set V)"
  proof (rule inj_onI)
    fix v w assume a: "v \<in> set V" "w \<in> set V" "f v = f w"
    from fv[OF a(1)] obtain i where i: "i < length dv" "dv ! i = v" "f v = of_nat i" by blast
    from fv[OF a(2)] obtain i' where i': "i' < length dv" "dv ! i' = w" "f w = of_nat i'" by blast
    have "unat (of_nat i :: 32 word) = i" "unat (of_nat i' :: 32 word) = i'"
      using i(1) i'(1) k31 by (simp_all add: unat_of_nat take_bit_nat_eq_self)
    then have "i = i'" using a(3) i(3) i'(3) by metis
    then show "v = w" using i(2) i'(2) by simp
  qed
  have nr: "\<forall>i n. i + n \<le> length idxs \<and> (\<forall>k<n. idxs ! (i + k) = idxs ! i) \<longrightarrow> n < 2 ^ 32"
  proof (intro allI impI)
    fix i n assume a: "i + n \<le> length idxs \<and> (\<forall>k<n. idxs ! (i + k) = idxs ! i)"
    have "V ! (i + k) = V ! i" if "k < n" for k
    proof -
      have lt: "i + k < length V" "i < length V" using a that F(4) by simp_all
      have e1: "idxs ! (i + k) = f (V ! (i + k))" unfolding im using lt(1) by simp
      have e2: "idxs ! i = f (V ! i)" unfolding im using lt(2) by simp
      have "idxs ! (i + k) = idxs ! i" using a that by blast
      then have "f (V ! (i + k)) = f (V ! i)" using e1 e2 by simp
      then show ?thesis using inj lt by (auto dest: inj_onD)
    qed
    then show "n < 2 ^ 32" using assms(2)[rule_format, of i n] a F(4) by simp
  qed
  have lr: "length (remdups_adj idxs) < 2 ^ 32"
    unfolding im remdups_adj_map_inj_on[OF inj] using assms(3) by simp
  have li: "length idxs \<le> cap" "length idxs \<le> scap"
    using F(4) assms(6,7) by simp_all
  from RLE_encodeInt32_roundtrip[OF ne nr lr li(1)] obtain runs where
    R: "RLE_encodeInt32 idxs = Some (rle_emit32 runs)"
      "RLE_decodeInt32 cap (rle_emit32 runs) (length (rle_emit32 runs)) (length idxs) = Inr idxs"
    by blast
  define hdr where "hdr = le_bytes 4 (of_nat (length dv) :: 32 word)"
  define body where "body = concat (map dict_emit_entry dv)"
  define bytes where "bytes = hdr @ body @ rle_emit32 runs"
  have lh: "length hdr = 4" by (simp add: hdr_def)
  have enc: "Dictionary_encode V = Some bytes"
    by (simp add: Dictionary_encode_def b R(1) bytes_def hdr_def body_def)
  have u: "unat (of_nat (length dv) :: 32 word) = length dv"
    using k31 by (simp add: unat_of_nat take_bit_nat_eq_self)
  have 1: "read_u32 bytes 0 = Inr (of_nat (length dv))"
    unfolding bytes_def hdr_def by (rule read_u32_le_bytes)
  have sl: "\<forall>s \<in> set dv. length s < 2 ^ 32" using assms(5) F(3) by simp
  have 2: "dict_read_entries (length dv) bytes 4 [] = Inr (dv, 4 + length body)"
    using dict_read_entries_emit[OF sl, of hdr "rle_emit32 runs" "[]"]
    unfolding bytes_def body_def lh by simp
  have 3: "drop (4 + length body) bytes = rle_emit32 runs"
    unfolding bytes_def using lh by simp
  have 4: "size_t_sub (length bytes) (4 + length body) = length (rle_emit32 runs)"
    unfolding bytes_def using lh by simp
  have 5: "RLE_decodeInt32 cap (drop (4 + length body) bytes)
             (size_t_sub (length bytes) (4 + length body)) (length V) = Inr idxs"
    unfolding 3 4 using R(2) F(4) by simp
  have s1: "length dv \<le> scap" using kle assms(7) by simp
  have D: "Dictionary_decode cap scap bytes (length bytes) (length V)
           = dict_lookup_all scap dv idxs []"
    by (rule Dictionary_decode_lookup[OF 1, unfolded u, OF s1 2 5 assms(7)])
  have each: "0 \<le> sint (idxs ! j) \<and> sint (idxs ! j) < int (length dv) \<and>
              dv ! nat (sint (idxs ! j)) = V ! j" if j: "j < length V" for j
  proof -
    from F(5) j obtain i where i: "i < length dv" "dv ! i = V ! j" "idxs ! j = of_nat i"
      by blast
    have "i < 2 ^ 31" using i(1) k31 by simp
    from sint_of_nat_small[OF this] show ?thesis using i by simp
  qed
  have inr: "\<not> (\<exists>idx \<in> set idxs. \<not> (0 \<le> sint idx \<and> sint idx < int (length dv)))"
    using each F(4) by (auto simp: in_set_conv_nth)
  have mp: "map (\<lambda>idx. dv ! nat (sint idx)) idxs = V"
    by (rule nth_equalityI) (use each F(4) in simp_all)
  have "Dictionary_decode cap scap bytes (length bytes) (length V) = Inr V"
    unfolding D dict_lookup_all_small[OF k31 li(2)] using inr mp by simp
  then show ?thesis using enc by blast
qed

lemma Dictionary_empty:
  "Dictionary_encode [] = Some [0, 0, 0, 0]"
  "Dictionary_decode cap scap [0, 0, 0, 0] 4 0 = Inl Truncated"
proof -
  show "Dictionary_encode [] = Some [0, 0, 0, 0]"
    by (simp add: Dictionary_encode_def RLE_encodeInt32_def numeral_eq_Suc)
  have r: "read_u32 [0, 0, 0, 0] 0 = Inr 0" by code_simp
  have t: "RLE_decodeInt32 cap [] 0 0 = Inl Truncated"
    by (simp add: RLE_decodeInt32_def Varint_decodeUInt32Safe_def decodeUInt32Safe_loop.simps)
  show "Dictionary_decode cap scap [0, 0, 0, 0] 4 0 = Inl Truncated"
    unfolding Dictionary_decode_def r sum.case by (simp add: t)
qed

text \<open>
  Claim C3. The encoder lists the distinct strings of the vector in the order of their first
  occurrence (\<open>dict_values\<close> is \<open>V\<close> with every later occurrence of a string removed), and the
  index written for an element is the position of its string in that list, as a \<^verbatim>\<open>uint32_t\<close>.
  Take a non-empty vector with no \<open>2^32\<close> equal strings in a row and fewer than \<open>2^32\<close> runs of
  equal strings (the run length and the run count of the index stream are \<^verbatim>\<open>uint32_t\<close>), with
  fewer than \<open>2^31\<close> distinct strings (the decoder tests the indices as \<^verbatim>\<open>int32_t\<close>), each
  shorter than \<open>2^32\<close> bytes (the length field is a \<^verbatim>\<open>uint32_t\<close>), that the vectors of the
  decoder can hold: decoding the encoded bytes with their length and \<open>num_values = |V|\<close>
  returns the vector. The empty vector is
  encoded to the four bytes of \<open>dict_size = 0\<close>; the decoder then decodes the indices from
  zero bytes with \<open>RLEEncoder::decodeInt32\<close>, which throws the truncated-varint error.
\<close>

theorem C3_dictionary_first_seen_round_trip:
  "(snd (dict_build V Map.empty [] []) = (dict_values, indices) \<longrightarrow>
      dict_values = rev (remdups (rev V)) \<and> distinct dict_values \<and> length indices = length V \<and>
      (\<forall>j<length V. \<exists>i<length dict_values. dict_values ! i = V ! j \<and> indices ! j = of_nat i)) \<and>
   (V \<noteq> [] \<and>
    (\<forall>i n. i + n \<le> length V \<and> (\<forall>k<n. V ! (i + k) = V ! i) \<longrightarrow> n < 2 ^ 32) \<and>
    length (remdups_adj V) < 2 ^ 32 \<and>
    card (set V) < 2 ^ 31 \<and> (\<forall>s \<in> set V. length s < 2 ^ 32) \<and>
    length V \<le> cap \<and> length V \<le> scap \<longrightarrow>
      (\<exists>bytes. Dictionary_encode V = Some bytes \<and>
         Dictionary_decode cap scap bytes (length bytes) (length V) = Inr V)) \<and>
   Dictionary_encode [] = Some [0, 0, 0, 0] \<and>
   Dictionary_decode cap scap [0, 0, 0, 0] 4 0 = Inl Truncated"
proof -
  have 1: "dict_values = rev (remdups (rev V)) \<and> distinct dict_values \<and> length indices = length V \<and>
      (\<forall>j<length V. \<exists>i<length dict_values. dict_values ! i = V ! j \<and> indices ! j = of_nat i)"
    if "snd (dict_build V Map.empty [] []) = (dict_values, indices)"
  proof -
    from that obtain dict where "dict_build V Map.empty [] [] = (dict, dict_values, indices)"
      by (cases "dict_build V Map.empty [] []") auto
    from dict_build_first_seen[OF this] show ?thesis by blast
  qed
  show ?thesis
    using 1 Dictionary_roundtrip[of V cap scap] Dictionary_empty(1) Dictionary_empty(2)[of cap scap]
    by blast
qed

theorem C3_dictionary_first_seen_round_trip_witness:
  "rev (remdups (rev [''ab'', ''c'', ''ab''])) = [''ab'', ''c''] \<and>
   (\<exists>i<2. [''ab'', ''c''] ! i = [''ab'', ''c'', ''ab''] ! 2 \<and> [0, 1, 0 :: 32 word] ! 2 = of_nat i) \<and>
   (\<exists>bytes. Dictionary_encode [''ab'', ''c'', ''ab''] = Some bytes \<and>
      Dictionary_decode 3 3 bytes (length bytes) 3 = Inr [''ab'', ''c'', ''ab''])"
proof -
  note t = C3_dictionary_first_seen_round_trip[of "[''ab'', ''c'', ''ab'']" "[''ab'', ''c'']"
      "[0, 1, 0]" 3 3]
  have b: "snd (dict_build [''ab'', ''c'', ''ab''] Map.empty [] []) = ([''ab'', ''c''], [0, 1, 0])"
    by (simp add: Let_def)
  note f = mp[OF conjunct1[OF t] b]
  have l3: "length [''ab'', ''c'', ''ab''] = 3" "length [''ab'', ''c''] = 2" by simp_all
  have a1: "rev (remdups (rev [''ab'', ''c'', ''ab''])) = [''ab'', ''c'']"
    using conjunct1[OF f] by simp
  have a2: "\<exists>i<2. [''ab'', ''c''] ! i = [''ab'', ''c'', ''ab''] ! 2 \<and> [0, 1, 0 :: 32 word] ! 2 = of_nat i"
  proof -
    have q: "\<forall>j<3. \<exists>i<2. [''ab'', ''c''] ! i = [''ab'', ''c'', ''ab''] ! j \<and>
               [0, 1, 0 :: 32 word] ! j = of_nat i"
      using conjunct2[OF conjunct2[OF conjunct2[OF f]]] unfolding l3 .
    have "(2 :: nat) < 3" by simp
    from q[rule_format, OF this] show ?thesis .
  qed
  have c: "card (set [''ab'', ''c'', ''ab'']) < 2 ^ 31"
  proof -
    have "card (set [''ab'', ''c'', ''ab'']) \<le> length [''ab'', ''c'', ''ab'']" by (rule card_length)
    then show ?thesis by simp
  qed
  have lv: "length [''ab'', ''c'', ''ab''] < 2 ^ 32" by simp
  have h1: "[''ab'', ''c'', ''ab''] \<noteq> []" by simp
  have h5: "\<forall>s \<in> set [''ab'', ''c'', ''ab'']. length s < 2 ^ 32" by simp
  have h6: "length [''ab'', ''c'', ''ab''] \<le> 3" by simp
  have h: "[''ab'', ''c'', ''ab''] \<noteq> [] \<and>
      (\<forall>i n. i + n \<le> length [''ab'', ''c'', ''ab''] \<and>
          (\<forall>k<n. [''ab'', ''c'', ''ab''] ! (i + k) = [''ab'', ''c'', ''ab''] ! i) \<longrightarrow> n < 2 ^ 32) \<and>
      length (remdups_adj [''ab'', ''c'', ''ab'']) < 2 ^ 32 \<and>
      card (set [''ab'', ''c'', ''ab'']) < 2 ^ 31 \<and>
      (\<forall>s \<in> set [''ab'', ''c'', ''ab'']. length s < 2 ^ 32) \<and>
      length [''ab'', ''c'', ''ab''] \<le> 3 \<and> length [''ab'', ''c'', ''ab''] \<le> 3"
    by (intro conjI h1 short_runs_bounded[OF lv] c h5 h6)
  have a3: "\<exists>bytes. Dictionary_encode [''ab'', ''c'', ''ab''] = Some bytes \<and>
      Dictionary_decode 3 3 bytes (length bytes) 3 = Inr [''ab'', ''c'', ''ab'']"
    using mp[OF conjunct1[OF conjunct2[OF t]] h] unfolding l3 .
  show ?thesis using a1 a2 a3 by (intro conjI)
qed


section \<open>Properties of the page-skip test\<close>

lemma canSkipPage_table:
  assumes "min_int stats = Some mn" "max_int stats = Some mx"
  shows "canSkipPage p stats \<longleftrightarrow>
           (case pred_op p of
              GT \<Rightarrow> sint mx \<le> sint (pred_value p)
            | GE \<Rightarrow> sint mx < sint (pred_value p)
            | LT \<Rightarrow> sint (pred_value p) \<le> sint mn
            | LE \<Rightarrow> sint (pred_value p) < sint mn
            | EQ \<Rightarrow> sint (pred_value p) < sint mn \<or> sint mx < sint (pred_value p)
            | NE \<Rightarrow> sint mn = sint mx \<and> sint mx = sint (pred_value p))"
  using assms by (simp add: canSkipPage_def split: CompareOp.splits)

lemma canSkipPage_sound:
  assumes "min_int stats = Some mn" "max_int stats = Some mx" "canSkipPage p stats"
    "sint mn \<le> sint x" "sint x \<le> sint mx"
  shows "\<not> evaluate p x"
  using assms by (cases "pred_op p") (auto simp: canSkipPage_def evaluate_def)

lemma canSkipPage_complete:
  assumes "min_int stats = Some mn" "max_int stats = Some mx" "sint mn \<le> sint mx"
    "\<forall>x. sint mn \<le> sint x \<and> sint x \<le> sint mx \<longrightarrow> \<not> evaluate p x"
  shows "canSkipPage p stats"
proof -
  note lo = assms(4)[rule_format, of mn]
  note hi = assms(4)[rule_format, of mx]
  note at = assms(4)[rule_format, of "pred_value p"]
  show ?thesis
  proof (cases "pred_op p")
    case EQ
    have "\<not> (sint mn \<le> sint (pred_value p) \<and> sint (pred_value p) \<le> sint mx)"
      using at EQ by (auto simp: evaluate_def)
    then have "sint (pred_value p) < sint mn \<or> sint mx < sint (pred_value p)" by linarith
    then show ?thesis using assms(1,2) EQ by (simp add: canSkipPage_def)
  next
    case NE
    then show ?thesis using assms(1,2,3) lo hi by (simp add: canSkipPage_def evaluate_def)
  next
    case LT
    then show ?thesis using assms(1,2,3) lo by (simp add: canSkipPage_def evaluate_def)
  next
    case LE
    then show ?thesis using assms(1,2,3) lo by (simp add: canSkipPage_def evaluate_def)
  next
    case GT
    then show ?thesis using assms(1,2,3) hi by (simp add: canSkipPage_def evaluate_def)
  next
    case GE
    then show ?thesis using assms(1,2,3) hi by (simp add: canSkipPage_def evaluate_def)
  qed
qed

lemma canSkipPage_absent:
  assumes "min_int stats = None \<or> max_int stats = None"
  shows "\<not> canSkipPage p stats"
  using assms by (auto simp: canSkipPage_def split: option.splits)

text \<open>
  Claim C6. For a page whose statistics carry both \<open>min\<close> and \<open>max\<close>, \<open>canSkipPage\<close> is the table
  (GT v: max \<open>\<le>\<close> v; GE v: max < v; LT v: min \<open>\<ge>\<close> v; LE v: min > v; EQ v: v < min or v > max;
  NE v: min = max = v); for \<open>min \<le> max\<close> it returns true exactly when no 64-bit value in
  \<open>[min, max]\<close> satisfies the predicate; and pushdown is sound: when the page is reported
  skippable and its statistics bound its decoded values (64-bit or 32-bit), no decoded value
  satisfies the predicate. It returns false whenever \<open>min\<close> or \<open>max\<close> is absent.
\<close>

theorem C6_canSkipPage:
  "(min_int stats = Some mn \<and> max_int stats = Some mx \<longrightarrow>
      (canSkipPage p stats \<longleftrightarrow>
         (case pred_op p of
            GT \<Rightarrow> sint mx \<le> sint (pred_value p)
          | GE \<Rightarrow> sint mx < sint (pred_value p)
          | LT \<Rightarrow> sint (pred_value p) \<le> sint mn
          | LE \<Rightarrow> sint (pred_value p) < sint mn
          | EQ \<Rightarrow> sint (pred_value p) < sint mn \<or> sint mx < sint (pred_value p)
          | NE \<Rightarrow> sint mn = sint mx \<and> sint mx = sint (pred_value p))) \<and>
      (sint mn \<le> sint mx \<longrightarrow>
         (canSkipPage p stats \<longleftrightarrow>
            (\<forall>x. sint mn \<le> sint x \<and> sint x \<le> sint mx \<longrightarrow> \<not> evaluate p x))) \<and>
      (canSkipPage p stats \<and> (\<forall>x \<in> set page. sint mn \<le> sint x \<and> sint x \<le> sint mx) \<longrightarrow>
         (\<forall>x \<in> set page. \<not> evaluate p x)) \<and>
      (canSkipPage p stats \<and> (\<forall>x \<in> set page32. sint mn \<le> sint x \<and> sint x \<le> sint mx) \<longrightarrow>
         (\<forall>x \<in> set page32. \<not> evaluate32 p x))) \<and>
   (min_int stats = None \<or> max_int stats = None \<longrightarrow> \<not> canSkipPage p stats)"
proof -
  have s32: "sint (scast x :: 64 word) = sint x" for x :: "32 word"
    by (simp add: sint_up_scast is_up)
  show ?thesis
    using canSkipPage_table[of stats mn mx p] canSkipPage_sound[of stats mn mx p]
      canSkipPage_complete[of stats mn mx p] canSkipPage_absent[of stats p]
    by (auto simp: evaluate32_def s32)
qed


theorem C6_canSkipPage_witness:
  "canSkipPage \<lparr>pred_column = ''value'', pred_op = GT, pred_value = 250\<rparr>
     \<lparr>min_int = Some 100, max_int = Some 200, null_count = 0, distinct_count_estimate = 0\<rparr> \<and>
   \<not> evaluate \<lparr>pred_column = ''value'', pred_op = GT, pred_value = 250\<rparr> 150 \<and>
   \<not> canSkipPage \<lparr>pred_column = ''value'', pred_op = GT, pred_value = 150\<rparr>
     \<lparr>min_int = Some 100, max_int = Some 200, null_count = 0, distinct_count_estimate = 0\<rparr>"
proof -
  let ?stats = "\<lparr>min_int = Some 100, max_int = Some 200, null_count = 0,
                 distinct_count_estimate = 0\<rparr>"
  let ?p = "\<lparr>pred_column = ''value'', pred_op = GT, pred_value = 250\<rparr>"
  let ?q = "\<lparr>pred_column = ''value'', pred_op = GT, pred_value = 150\<rparr>"
  have h: "min_int ?stats = Some 100 \<and> max_int ?stats = Some 200" by simp
  note t = mp[OF conjunct1[OF C6_canSkipPage[of ?stats 100 200 ?p "[150]" "[]"]] h]
  note u = mp[OF conjunct1[OF C6_canSkipPage[of ?stats 100 200 ?q "[150]" "[]"]] h]
  have a: "canSkipPage ?p ?stats" using conjunct1[OF t] by simp
  have b: "\<not> evaluate ?p 150" using conjunct1[OF conjunct2[OF conjunct2[OF t]]] a by simp
  have c: "\<not> canSkipPage ?q ?stats" using conjunct1[OF u] by simp
  show ?thesis using a b c by blast
qed

end
